theory Spec2Isabelle
  imports Main "HOL-Library.Word"
begin

unbundle bit_operations_syntax

section \<open>Machine integers\<close>

type_synonym u8 = "8 word"
type_synonym u32 = "32 word"
type_synonym u64 = "64 word"

section \<open>The ring buffer (LMAXDisruptor.cpp, lines 17-48)\<close>

text \<open>
  \<^verbatim>\<open>struct alignas(64) Block { uint8_t data[63]; uint8_t size_; };\<close>
  The payload array is a list of bytes; a well-formed block has exactly 63 of them.
  The member \<^verbatim>\<open>size_\<close> is \<open>size_b\<close> (a name cannot end in an underscore here).
\<close>

record Block =
  data :: "u8 list"
  size_b :: u8

definition Block_ok :: "Block \<Rightarrow> bool" where
  "Block_ok b = (length (data b) = 63)"

text \<open>
  \<^verbatim>\<open>class RingBuffer { Block* buffer; uint32_t l; }\<close>. The two private members are
  \<open>rb_buffer\<close> and \<open>rb_l\<close> here, since the program also has a global object called
  \<open>buffer\<close>.
\<close>

record RingBuffer =
  rb_buffer :: "Block list"
  rb_l :: u32

text \<open>
  The constructor: \<^verbatim>\<open>size = (1 << power); buffer = new Block[size]; l = size - 1;\<close>
  The array that \<^verbatim>\<open>new Block[size]\<close> returns holds indeterminate bytes, so its contents
  are a parameter (\<open>fresh\<close>); \<open>pw\<close> is \<^verbatim>\<open>power\<close> and \<open>sz\<close> is \<^verbatim>\<open>size\<close>.
\<close>

definition RingBuffer_new :: "nat \<Rightarrow> Block list \<Rightarrow> RingBuffer" where
  "RingBuffer_new pw fresh =
     (let sz = (push_bit pw 1 :: u32)
      in \<lparr>rb_buffer = take (unat sz) fresh, rb_l = sz - 1\<rparr>)"

text \<open>
  \<^verbatim>\<open>std::memcpy(dest, src, n)\<close> copies the first \<open>n\<close> bytes of \<open>src\<close> over the first
  \<open>n\<close> bytes of \<open>dest\<close>. Copying beyond the end of either array is undefined behaviour
  in the source; the model makes it a fault. The check belongs to the model of
  \<^verbatim>\<open>memcpy\<close>: neither \<^verbatim>\<open>Write\<close> nor \<^verbatim>\<open>Read\<close> has one.
\<close>

datatype fault = MemcpyOutOfBounds

definition memcpy :: "u8 list \<Rightarrow> u8 list \<Rightarrow> nat \<Rightarrow> fault + u8 list" where
  "memcpy dest src n =
     (if n \<le> length dest \<and> n \<le> length src then Inr (take n src @ drop n dest)
      else Inl MemcpyOutOfBounds)"

text \<open>
  \<^verbatim>\<open>void Write(uint32_t block_idx, void* data, uint8_t size)
  { uint32_t idx = block_idx & l; buffer[idx].size_ = size;
    std::memcpy(buffer[idx].data, data, size); }\<close>
\<close>

definition Write :: "RingBuffer \<Rightarrow> u32 \<Rightarrow> u8 list \<Rightarrow> u8 \<Rightarrow> fault + RingBuffer" where
  "Write rb block_idx src sz =
     (let idx = unat (block_idx AND rb_l rb);
          b = (rb_buffer rb ! idx)\<lparr>size_b := sz\<rparr>
      in case memcpy (data b) src (unat sz) of
           Inl e \<Rightarrow> Inl e
         | Inr d \<Rightarrow> Inr (rb\<lparr>rb_buffer := (rb_buffer rb)[idx := b\<lparr>data := d\<rparr>]\<rparr>))"

text \<open>
  \<^verbatim>\<open>void Read(uint32_t block_idx, void* data, uint8_t& size) const
  { uint32_t idx = block_idx & l; size = buffer[idx].size_;
    std::memcpy(data, buffer[idx].data, size); }\<close>
  The caller's array is \<open>dest\<close>; the result is that array after the copy, and the
  length stored through the reference.
\<close>

definition Read :: "RingBuffer \<Rightarrow> u32 \<Rightarrow> u8 list \<Rightarrow> fault + (u8 list \<times> u8)" where
  "Read rb block_idx dest =
     (let idx = unat (block_idx AND rb_l rb);
          sz = size_b (rb_buffer rb ! idx)
      in case memcpy dest (data (rb_buffer rb ! idx)) (unat sz) of
           Inl e \<Rightarrow> Inl e
         | Inr d \<Rightarrow> Inr (d, sz))"

section \<open>Globals (lines 51-62)\<close>

text \<open>
  \<^verbatim>\<open>struct alignas(64) Counter { std::atomic<uint64_t> sequence; };\<close> has one member,
  so a counter is its 64-bit value. The globals \<^verbatim>\<open>p\<close> and \<^verbatim>\<open>size_\<close> are \<open>p_glob\<close>
  and \<open>size_glob\<close>.
\<close>

definition numConsumers :: nat where
  "numConsumers = 4"

definition p_glob :: nat where
  "p_glob = 8"

definition size_glob :: u32 where
  "size_glob = push_bit p_glob 1"

definition ull_max :: u64 where
  "ull_max = 18446744073709551615"

record state =
  sequence :: u64
  consumer_sequences :: "u64 list"
  buffer :: RingBuffer
  producer_running :: bool
  consumer_running :: bool

definition initial :: "Block list \<Rightarrow> state" where
  "initial fresh =
     \<lparr>sequence = 0,
      consumer_sequences = replicate numConsumers 0,
      buffer = RingBuffer_new p_glob fresh,
      producer_running = True,
      consumer_running = True\<rparr>"

section \<open>The producer (lines 63-95)\<close>

text \<open>
  Lines 67-76: the loop over the consumers that computes \<^verbatim>\<open>cont\<close>, leaving at the
  first consumer that is a whole buffer behind. \<open>gating st i\<close> is the value of
  \<^verbatim>\<open>cont\<close> after the loop, started at index \<open>i\<close>. The difference is taken on
  \<^verbatim>\<open>uint64_t\<close> and wraps.
\<close>

function gating :: "state \<Rightarrow> nat \<Rightarrow> bool" where
  "gating st i =
     (if i < numConsumers then
        (let diff = sequence st - consumer_sequences st ! i
         in if diff \<ge> ucast size_glob then False else gating st (i + 1))
      else True)"
  by pat_completeness auto
termination
  by (relation "measure (\<lambda>(st, i). numConsumers - i)") auto

declare gating.simps [simp del]

text \<open>
  Lines 85-88: \<^verbatim>\<open>for (i...) consumer_sequences[i].sequence -= c * size_;\<close>
\<close>

function rebase_consumers :: "u64 list \<Rightarrow> u64 \<Rightarrow> nat \<Rightarrow> u64 list" where
  "rebase_consumers cs k i =
     (if i < numConsumers then rebase_consumers (cs[i := cs ! i - k]) k (i + 1) else cs)"
  by pat_completeness auto
termination
  by (relation "measure (\<lambda>(cs, k, i). numConsumers - i)") auto

declare rebase_consumers.simps [simp del]

text \<open>
  Lines 81-90, the block guarded by \<^verbatim>\<open>sequence.sequence == ull_max\<close> (the line it
  prints is left out).
\<close>

definition overflow_rebase :: "state \<Rightarrow> state" where
  "overflow_rebase st =
     (if sequence st = ull_max then
        (let c = ull_max div ucast size_glob - 2
         in st\<lparr>consumer_sequences :=
                  rebase_consumers (consumer_sequences st) (c * ucast size_glob) 0,
                sequence := sequence st - c * ucast size_glob\<rparr>)
      else st)"

text \<open>
  \<^verbatim>\<open>std::to_string\<close> of an unsigned value: its decimal digits, most significant
  first.
\<close>

fun to_string :: "nat \<Rightarrow> string" where
  "to_string n =
     (if n < 10 then [char_of (48 + n)]
      else to_string (n div 10) @ [char_of (48 + n mod 10)])"

declare to_string.simps [simp del]

definition message_of :: "u64 \<Rightarrow> string" where
  "message_of s = ''Message: '' @ to_string (unat s)"

text \<open>\<^verbatim>\<open>message.c_str()\<close>: the characters and the terminating NUL.\<close>

definition c_str :: "string \<Rightarrow> u8 list" where
  "c_str m = map of_char m @ [0]"

text \<open>
  Lines 92-93 for a given \<^verbatim>\<open>message\<close>: the write into the slot of the current
  sequence and the increment that publishes it. \<^verbatim>\<open>message.size() + 1\<close> is passed to
  a \<^verbatim>\<open>uint8_t\<close> parameter, which keeps its low 8 bits.
\<close>

definition publish :: "state \<Rightarrow> string \<Rightarrow> fault + state" where
  "publish st message =
     (case Write (buffer st) (ucast (sequence st)) (c_str message)
             (of_nat (length message + 1)) of
        Inl e \<Rightarrow> Inl e
      | Inr rb \<Rightarrow> Inr (st\<lparr>buffer := rb, sequence := sequence st + 1\<rparr>))"

text \<open>One iteration of the body of \<^verbatim>\<open>while (producer_running)\<close>.\<close>

definition producer_iter :: "state \<Rightarrow> fault + state" where
  "producer_iter st =
     (if \<not> gating st 0 then Inr st
      else let st1 = overflow_rebase st
           in publish st1 (message_of (sequence st1)))"

section \<open>The consumers (lines 96-115) and their wiring (lines 121-125)\<close>

text \<open>The condition of the \<^verbatim>\<open>while\<close> loop, lines 99-100.\<close>

definition consumer_loop_cond :: "nat \<Rightarrow> state \<Rightarrow> bool" where
  "consumer_loop_cond consumer_id st =
     (consumer_running st \<or> consumer_sequences st ! consumer_id < sequence st)"

text \<open>The condition of the \<^verbatim>\<open>if\<close>, lines 102-107.\<close>

definition consumer_admit :: "nat \<Rightarrow> int \<Rightarrow> state \<Rightarrow> bool" where
  "consumer_admit consumer_id next_consumer_id st =
     (consumer_sequences st ! consumer_id < sequence st \<and>
      (next_consumer_id = - 1 \<or>
       consumer_sequences st ! consumer_id < consumer_sequences st ! nat next_consumer_id))"

text \<open>
  One iteration of the loop body. \<open>local_data\<close> is the array \<^verbatim>\<open>data[64]\<close> of line
  109 before the read (indeterminate in the source). The second component of the
  result is what \<^verbatim>\<open>Read\<close> delivered, if the iteration read at all.
\<close>

definition consumer_iter ::
  "nat \<Rightarrow> int \<Rightarrow> u8 list \<Rightarrow> state \<Rightarrow> fault + (state \<times> (u8 list \<times> u8) option)" where
  "consumer_iter consumer_id next_consumer_id local_data st =
     (if consumer_admit consumer_id next_consumer_id st then
        (case Read (buffer st) (ucast (consumer_sequences st ! consumer_id)) local_data of
           Inl e \<Rightarrow> Inl e
         | Inr r \<Rightarrow>
             Inr (st\<lparr>consumer_sequences :=
                       (consumer_sequences st)
                         [consumer_id := consumer_sequences st ! consumer_id + 1]\<rparr>,
                  Some r))
      else Inr (st, None))"

text \<open>
  Line 123: \<^verbatim>\<open>int next_consumer_id = i == numConsumers - 1 ? -1 : i + 1;\<close>
\<close>

definition next_consumer_id_of :: "nat \<Rightarrow> int" where
  "next_consumer_id_of i = (if i = numConsumers - 1 then - 1 else int i + 1)"

section \<open>Executions\<close>

text \<open>
  The producer thread, the four consumer threads and \<^verbatim>\<open>main\<close> run concurrently. A
  state of the system is the shared memory (a \<open>state\<close>) together with the program
  point of the producer and of each consumer. The program points of \<^verbatim>\<open>producer()\<close>:

    \<^item> \<open>P_while\<close>: at the condition of \<^verbatim>\<open>while (producer_running)\<close>, line 65;
    \<^item> \<open>P_for i\<close>: in the loop of lines 68-76, at index \<open>i\<close>, with \<^verbatim>\<open>cont\<close> still true;
    \<^item> \<open>P_epoch\<close>: at the test \<^verbatim>\<open>sequence.sequence == ull_max\<close>, line 81;
    \<^item> \<open>P_rebase i\<close>: in the loop of lines 85-88, at index \<open>i\<close>; once \<open>i\<close> has reached
      \<open>numConsumers\<close>, at line 89;
    \<^item> \<open>P_write\<close>: at lines 91-92;
    \<^item> \<open>P_publish\<close>: at the \<^verbatim>\<open>fetch_add\<close> of line 93;
    \<^item> \<open>P_exit\<close>: the loop has been left.

  The program points of \<^verbatim>\<open>consumer()\<close>:

    \<^item> \<open>C_while\<close>: at the condition of the \<^verbatim>\<open>while\<close>, about to read
      \<^verbatim>\<open>consumer_running\<close> (line 99);
    \<^item> \<open>C_cmp k a b\<close>: in the comparison \<open>k\<close>, with the operands read so far. The
      comparisons are the three \<^verbatim>\<open><\<close> of the function: \<open>Cmp_while\<close> (lines 99-100),
      \<open>Cmp_if\<close> (lines 102-103) and \<open>Cmp_up\<close> (lines 105-106). The left operand \<open>a\<close>
      is the consumer's own counter, the right operand \<open>b\<close> the producer's counter
      or, for \<open>Cmp_up\<close>, the upstream consumer's;
    \<^item> \<open>C_read\<close>: at the call of \<^verbatim>\<open>Read\<close>, line 111;
    \<^item> \<open>C_advance\<close>: at the \<^verbatim>\<open>fetch_add\<close> of line 112;
    \<^item> \<open>C_exit\<close>: the loop has been left.
\<close>

datatype producer_pc = P_while | P_for nat | P_epoch | P_rebase nat | P_write | P_publish | P_exit

datatype comparison = Cmp_while | Cmp_if | Cmp_up

datatype consumer_pc =
  C_while | C_cmp comparison "u64 option" "u64 option" | C_read | C_advance | C_exit

text \<open>
  The right operand of a comparison of consumer \<open>i\<close>, and where the consumer goes
  when the comparison is true and when it is false: \<^verbatim>\<open>||\<close> and \<^verbatim>\<open>&&\<close> evaluate their
  second operand only if the first does not decide, and \<^verbatim>\<open>next_consumer_id == -1\<close> is
  a test on a parameter.
\<close>

fun right_operand :: "comparison \<Rightarrow> nat \<Rightarrow> state \<Rightarrow> u64" where
  "right_operand Cmp_up i st = consumer_sequences st ! nat (next_consumer_id_of i)"
| "right_operand k i st = sequence st"

fun when_true :: "comparison \<Rightarrow> nat \<Rightarrow> consumer_pc" where
  "when_true Cmp_while i = C_cmp Cmp_if None None"
| "when_true Cmp_if i =
     (if next_consumer_id_of i = - 1 then C_read else C_cmp Cmp_up None None)"
| "when_true Cmp_up i = C_read"

fun when_false :: "comparison \<Rightarrow> consumer_pc" where
  "when_false Cmp_while = C_exit"
| "when_false k = C_while"

text \<open>
  The events of an execution, in the order in which they happen: the producer's
  \<^verbatim>\<open>fetch_add\<close> of line 93 (\<open>Published\<close>), and the \<^verbatim>\<open>fetch_add\<close> of line 112 by
  which consumer \<open>i\<close> leaves a slot that it has read (\<open>Delivered i\<close>).
\<close>

datatype event = Published | Delivered nat

definition ring_ok :: "RingBuffer \<Rightarrow> bool" where
  "ring_ok rb =
     (rb_l rb = size_glob - 1 \<and> length (rb_buffer rb) = unat size_glob \<and>
      list_all Block_ok (rb_buffer rb))"

text \<open>
  \<open>reach tr pp cp st\<close>: some execution of the program, with events \<open>tr\<close>, leads to
  shared memory \<open>st\<close> with the producer at \<open>pp\<close> and consumer \<open>i\<close> at \<open>cp ! i\<close>. A step
  of a thread makes at most one access to memory that another thread writes: it
  reads a flag, reads a counter, subtracts from a counter or increments one, or calls
  \<^verbatim>\<open>Write\<close> or \<^verbatim>\<open>Read\<close>. The producer reads its own counter, which it alone writes,
  within its steps. A consumer reads the two operands of a comparison in two steps,
  in either order, and decides in a third. Steps of different threads interleave in
  any order. Each of the four subtractions of line 87 and the subtraction of line 89
  is a step of its own, and consumers run between them. \<^verbatim>\<open>main\<close> clears
  \<^verbatim>\<open>producer_running\<close> at some moment (line 127) and \<^verbatim>\<open>consumer_running\<close> once the
  producer thread has ended (lines 128-129). A \<^verbatim>\<open>Write\<close> or \<^verbatim>\<open>Read\<close> that runs out
  of bounds has no successor; lemmas \<open>reach_write_publish\<close> and \<open>reach_read_ok\<close> below
  show that none does.
\<close>

inductive reach :: "event list \<Rightarrow> producer_pc \<Rightarrow> consumer_pc list \<Rightarrow> state \<Rightarrow> bool" where
  start:
    "length fresh = unat size_glob \<Longrightarrow> list_all Block_ok fresh \<Longrightarrow>
     reach [] P_while (replicate numConsumers C_while) (initial fresh)"
| producer_while_enter:
    "reach tr P_while cp st \<Longrightarrow> producer_running st \<Longrightarrow> reach tr (P_for 0) cp st"
| producer_while_exit:
    "reach tr P_while cp st \<Longrightarrow> \<not> producer_running st \<Longrightarrow> reach tr P_exit cp st"
| producer_for_break:
    "reach tr (P_for i) cp st \<Longrightarrow> i < numConsumers \<Longrightarrow>
     sequence st - consumer_sequences st ! i \<ge> ucast size_glob \<Longrightarrow>
     reach tr P_while cp st"
| producer_for_next:
    "reach tr (P_for i) cp st \<Longrightarrow> i < numConsumers \<Longrightarrow>
     \<not> sequence st - consumer_sequences st ! i \<ge> ucast size_glob \<Longrightarrow>
     reach tr (P_for (i + 1)) cp st"
| producer_for_done:
    "reach tr (P_for i) cp st \<Longrightarrow> \<not> i < numConsumers \<Longrightarrow> reach tr P_epoch cp st"
| producer_epoch_max:
    "reach tr P_epoch cp st \<Longrightarrow> sequence st = ull_max \<Longrightarrow> reach tr (P_rebase 0) cp st"
| producer_epoch_below:
    "reach tr P_epoch cp st \<Longrightarrow> sequence st \<noteq> ull_max \<Longrightarrow> reach tr P_write cp st"
| producer_rebase_consumer:
    "reach tr (P_rebase i) cp st \<Longrightarrow> i < numConsumers \<Longrightarrow>
     c = ull_max div ucast size_glob - 2 \<Longrightarrow>
     reach tr (P_rebase (i + 1)) cp
       (st\<lparr>consumer_sequences :=
             (consumer_sequences st)[i := consumer_sequences st ! i - c * ucast size_glob]\<rparr>)"
| producer_rebase_own:
    "reach tr (P_rebase i) cp st \<Longrightarrow> \<not> i < numConsumers \<Longrightarrow>
     c = ull_max div ucast size_glob - 2 \<Longrightarrow>
     reach tr P_write cp (st\<lparr>sequence := sequence st - c * ucast size_glob\<rparr>)"
| producer_write:
    "reach tr P_write cp st \<Longrightarrow> message = message_of (sequence st) \<Longrightarrow>
     Write (buffer st) (ucast (sequence st)) (c_str message) (of_nat (length message + 1)) = Inr rb \<Longrightarrow>
     reach tr P_publish cp (st\<lparr>buffer := rb\<rparr>)"
| producer_publish:
    "reach tr P_publish cp st \<Longrightarrow>
     reach (tr @ [Published]) P_while cp (st\<lparr>sequence := sequence st + 1\<rparr>)"
| consumer_while_running:
    "reach tr pp cp st \<Longrightarrow> i < numConsumers \<Longrightarrow> cp ! i = C_while \<Longrightarrow>
     consumer_running st \<Longrightarrow> reach tr pp (cp[i := C_cmp Cmp_if None None]) st"
| consumer_while_stopped:
    "reach tr pp cp st \<Longrightarrow> i < numConsumers \<Longrightarrow> cp ! i = C_while \<Longrightarrow>
     \<not> consumer_running st \<Longrightarrow> reach tr pp (cp[i := C_cmp Cmp_while None None]) st"
| consumer_load_left:
    "reach tr pp cp st \<Longrightarrow> i < numConsumers \<Longrightarrow> cp ! i = C_cmp k None b \<Longrightarrow>
     reach tr pp (cp[i := C_cmp k (Some (consumer_sequences st ! i)) b]) st"
| consumer_load_right:
    "reach tr pp cp st \<Longrightarrow> i < numConsumers \<Longrightarrow> cp ! i = C_cmp k a None \<Longrightarrow>
     reach tr pp (cp[i := C_cmp k a (Some (right_operand k i st))]) st"
| consumer_cmp_true:
    "reach tr pp cp st \<Longrightarrow> i < numConsumers \<Longrightarrow> cp ! i = C_cmp k (Some a) (Some b) \<Longrightarrow>
     a < b \<Longrightarrow> reach tr pp (cp[i := when_true k i]) st"
| consumer_cmp_false:
    "reach tr pp cp st \<Longrightarrow> i < numConsumers \<Longrightarrow> cp ! i = C_cmp k (Some a) (Some b) \<Longrightarrow>
     \<not> a < b \<Longrightarrow> reach tr pp (cp[i := when_false k]) st"
| consumer_read:
    "reach tr pp cp st \<Longrightarrow> i < numConsumers \<Longrightarrow> cp ! i = C_read \<Longrightarrow>
     length local_data = 64 \<Longrightarrow>
     Read (buffer st) (ucast (consumer_sequences st ! i)) local_data = Inr r \<Longrightarrow>
     reach tr pp (cp[i := C_advance]) st"
| consumer_advance:
    "reach tr pp cp st \<Longrightarrow> i < numConsumers \<Longrightarrow> cp ! i = C_advance \<Longrightarrow>
     reach (tr @ [Delivered i]) pp (cp[i := C_while])
       (st\<lparr>consumer_sequences :=
             (consumer_sequences st)[i := consumer_sequences st ! i + 1]\<rparr>)"
| stop_producer:
    "reach tr pp cp st \<Longrightarrow> reach tr pp cp (st\<lparr>producer_running := False\<rparr>)"
| stop_consumers:
    "reach tr P_exit cp st \<Longrightarrow> reach tr P_exit cp (st\<lparr>consumer_running := False\<rparr>)"

text \<open>A sequence of calls of \<^verbatim>\<open>Write\<close>, each given as (block index, bytes, length).\<close>

fun Write_all :: "RingBuffer \<Rightarrow> (u32 \<times> u8 list \<times> u8) list \<Rightarrow> fault + RingBuffer" where
  "Write_all rb [] = Inr rb"
| "Write_all rb ((block_idx, src, sz) # ws) =
     (case Write rb block_idx src sz of
        Inl e \<Rightarrow> Inl e
      | Inr rb' \<Rightarrow> Write_all rb' ws)"

text \<open>
  All five counters, the producer's first: the objects that lines 85-89 rebase.
\<close>

definition counters :: "state \<Rightarrow> u64 list" where
  "counters st = sequence st # consumer_sequences st"

section \<open>Invariants of the counters\<close>

text \<open>
  Two positions of a consumer relative to the producer's iteration.
  \<open>gate_passed pp i\<close>: in the iteration that the producer is in at \<open>pp\<close>, it has
  compared its counter with consumer \<open>i\<close>'s at lines 70-71 and has not yet rebased that
  consumer. \<open>rebased pp i\<close>: the producer is in the block of lines 85-89 and has
  subtracted from consumer \<open>i\<close>'s counter (line 87) but not yet from its own (line 89).
\<close>

fun gate_passed :: "producer_pc \<Rightarrow> nat \<Rightarrow> bool" where
  "gate_passed (P_for j) i = (i < j)"
| "gate_passed P_epoch i = True"
| "gate_passed (P_rebase j) i = (j \<le> i)"
| "gate_passed pp i = False"


text \<open>
  What a consumer has found out so far in the iteration that it is in:
  \<open>past_first\<close>, that its counter is below the producer's (the comparison of lines
  102-103 was true); \<open>past_both\<close>, that it is also below the upstream consumer's, if
  there is one (it is at line 111 or 112). \<open>left_read\<close> and \<open>right_read\<close> are the
  operands that it holds of the comparison that it is in.
\<close>

fun past_first :: "consumer_pc \<Rightarrow> bool" where
  "past_first (C_cmp Cmp_up a b) = True"
| "past_first C_read = True"
| "past_first C_advance = True"
| "past_first pc = False"

fun past_both :: "consumer_pc \<Rightarrow> bool" where
  "past_both C_read = True"
| "past_both C_advance = True"
| "past_both pc = False"

fun left_read :: "consumer_pc \<Rightarrow> (comparison \<times> u64) option" where
  "left_read (C_cmp k (Some a) b) = Some (k, a)"
| "left_read pc = None"

fun right_read :: "consumer_pc \<Rightarrow> (comparison \<times> u64) option" where
  "right_read (C_cmp k a (Some b)) = Some (k, b)"
| "right_read pc = None"

text \<open>
  What keeps the arithmetic on the counters from wrapping: the counter of a consumer
  that is past the comparison of lines 102-103, or holds a value below \<open>ull_max\<close> that
  it read for it, is not \<open>ull_max\<close>, and neither is the producer's when it is about to
  be incremented; the block of lines 85-89 runs with the producer's
  counter at \<open>ull_max\<close>; and while it is \<open>ull_max\<close>, a consumer that passed the gate and
  is not yet rebased is within 255 of it.
\<close>

definition counters_steady :: "producer_pc \<Rightarrow> consumer_pc list \<Rightarrow> state \<Rightarrow> bool" where
  "counters_steady pp cp st =
     ((\<forall>i < numConsumers.
          (past_first (cp ! i) \<longrightarrow> consumer_sequences st ! i \<noteq> ull_max) \<and>
          (\<forall>a. left_read (cp ! i) = Some (Cmp_if, a) \<longrightarrow>
             consumer_sequences st ! i = a \<or> consumer_sequences st ! i \<noteq> ull_max)) \<and>
      (pp = P_write \<or> pp = P_publish \<longrightarrow> sequence st \<noteq> ull_max) \<and>
      (\<forall>j. pp = P_rebase j \<longrightarrow> sequence st = ull_max) \<and>
      (sequence st = ull_max \<longrightarrow>
         (\<forall>i < numConsumers. gate_passed pp i \<longrightarrow> ull_max - 255 \<le> consumer_sequences st ! i)))"

text \<open>
  The order of the counters, on their values as natural numbers, seen from consumer
  \<open>i\<close> at program point \<open>pc\<close>, and then for all consumers: no consumer is ahead
  of the producer, the producer is at most a buffer ahead of any consumer (less than a
  buffer, once the gate has been passed for that consumer), each consumer is behind
  the next one, a consumer holds its own counter as the left operand and a value that
  the right operand has reached, and a consumer that is past a comparison is strictly
  behind the counter that it compared with.
\<close>

definition orderly_at :: "producer_pc \<Rightarrow> consumer_pc \<Rightarrow> nat \<Rightarrow> state \<Rightarrow> bool" where
  "orderly_at pp pc i st =
     (unat (consumer_sequences st ! i) \<le> unat (sequence st) \<and>
      unat (sequence st) \<le> unat (consumer_sequences st ! i) + 256 \<and>
      (gate_passed pp i \<or> pp = P_write \<or> pp = P_publish \<longrightarrow>
         unat (sequence st) < unat (consumer_sequences st ! i) + 256) \<and>
      (\<forall>k a. left_read pc = Some (k, a) \<longrightarrow> a = consumer_sequences st ! i) \<and>
      (\<forall>k b. right_read pc = Some (k, b) \<longrightarrow> unat b \<le> unat (right_operand k i st)) \<and>
      (past_first pc \<longrightarrow> unat (consumer_sequences st ! i) < unat (sequence st)) \<and>
      (i + 1 < numConsumers \<longrightarrow>
         unat (consumer_sequences st ! i) \<le> unat (consumer_sequences st ! (i + 1)) \<and>
         (past_both pc \<longrightarrow>
            unat (consumer_sequences st ! i) < unat (consumer_sequences st ! (i + 1)))))"

definition orderly :: "producer_pc \<Rightarrow> consumer_pc list \<Rightarrow> state \<Rightarrow> bool" where
  "orderly pp cp st = (\<forall>i < numConsumers. orderly_at pp (cp ! i) i st)"


text \<open>
  The slots: the ring has the program's shape and each of its first \<open>n\<close> slots holds a
  length of at most 63.
\<close>

definition slots_written :: "nat \<Rightarrow> RingBuffer \<Rightarrow> bool" where
  "slots_written n rb =
     (ring_ok rb \<and> (\<forall>j < 256. j < n \<longrightarrow> unat (size_b (rb_buffer rb ! j)) \<le> 63))"

section \<open>Concrete states\<close>

text \<open>
  A ring of the program's size with all bytes zero, the initial state built on it, the
  state after the producer's first iteration (which writes \<^verbatim>\<open>"Message: 0"\<close> and its NUL,
  11 bytes, into slot 0) with given consumer counters and flags, and a state in which
  the producer's counter has reached \<open>ull_max\<close>. \<open>running_state\<close> is a state with
  given counters and ring in which both flags are set.
\<close>

definition blank_block :: Block where
  "blank_block = \<lparr>data = replicate 63 0, size_b = 0\<rparr>"

definition blank_ring :: RingBuffer where
  "blank_ring = \<lparr>rb_buffer = replicate 256 blank_block, rb_l = 255\<rparr>"

definition blank_state :: state where
  "blank_state = initial (replicate 256 blank_block)"

definition first_message_ring :: RingBuffer where
  "first_message_ring =
     (buffer blank_state)\<lparr>rb_buffer := (rb_buffer (buffer blank_state))
        [0 := \<lparr>data = c_str ''Message: 0'' @ replicate 52 0, size_b = 11\<rparr>]\<rparr>"

definition demo_state :: "u64 list \<Rightarrow> bool \<Rightarrow> bool \<Rightarrow> state" where
  "demo_state cs pr cr =
     \<lparr>sequence = 1, consumer_sequences = cs, buffer = first_message_ring,
      producer_running = pr, consumer_running = cr\<rparr>"

definition wrap_state :: state where
  "wrap_state =
     blank_state\<lparr>sequence := ull_max,
        consumer_sequences := [ull_max - 255, ull_max - 200, ull_max - 1, ull_max]\<rparr>"

definition running_state :: "u64 \<Rightarrow> u64 list \<Rightarrow> RingBuffer \<Rightarrow> state" where
  "running_state s cs rb =
     \<lparr>sequence = s, consumer_sequences = cs, buffer = rb,
      producer_running = True, consumer_running = True\<rparr>"

section \<open>Constants and loops\<close>

lemma size_glob_256: "size_glob = 256"
  by (simp add: size_glob_def p_glob_def)

lemma ucast_size_glob: "(ucast size_glob :: u64) = 256"
  by (simp add: size_glob_256)

lemma ull_max_minus_1: "ull_max = - 1"
  by (simp add: ull_max_def)

lemma rebase_amount: "(ull_max div ucast size_glob - 2) * ucast size_glob = (- 768 :: u64)"
  by (simp add: ucast_size_glob ull_max_def)

lemma gating_iff:
  "gating st i = (\<forall>j. i \<le> j \<and> j < numConsumers \<longrightarrow> sequence st - consumer_sequences st ! j < 256)"
proof (induction st i rule: gating.induct)
  case (1 st i)
  show ?case
  proof (cases "i < numConsumers")
    case False
    then show ?thesis by (auto simp add: gating.simps [of st i])
  next
    case True
    show ?thesis
    proof (cases "sequence st - consumer_sequences st ! i < 256")
      case False
      with True show ?thesis
        by (auto simp add: gating.simps [of st i] ucast_size_glob Let_def not_less)
    next
      case lt: True
      then have "\<not> 256 \<le> sequence st - consumer_sequences st ! i" by (simp add: not_le)
      with True have "gating st i = gating st (i + 1)"
        by (simp add: gating.simps [of st i] ucast_size_glob Let_def)
      also have "\<dots> = (\<forall>j. i + 1 \<le> j \<and> j < numConsumers \<longrightarrow> sequence st - consumer_sequences st ! j < 256)"
        using "1.IH" [OF True refl] lt by (simp add: ucast_size_glob not_le)
      also have "\<dots> = (\<forall>j. i \<le> j \<and> j < numConsumers \<longrightarrow> sequence st - consumer_sequences st ! j < 256)"
        using lt by (metis Suc_eq_plus1 Suc_leI le_neq_implies_less Suc_leD)
      finally show ?thesis .
    qed
  qed
qed

lemma length_rebase_consumers [simp]: "length (rebase_consumers cs k i) = length cs"
  by (induction cs k i rule: rebase_consumers.induct)
     (simp add: rebase_consumers.simps [of _ _ _])

lemma nth_rebase_consumers:
  "j < length cs \<Longrightarrow>
   rebase_consumers cs k i ! j = (if i \<le> j \<and> j < numConsumers then cs ! j - k else cs ! j)"
proof (induction cs k i rule: rebase_consumers.induct)
  case (1 cs k i)
  show ?case
  proof (cases "i < numConsumers")
    case False
    then show ?thesis by (auto simp add: rebase_consumers.simps [of cs k i])
  next
    case True
    have "rebase_consumers cs k i ! j = rebase_consumers (cs[i := cs ! i - k]) k (i + 1) ! j"
      using True by (simp add: rebase_consumers.simps [of cs k i])
    also have "\<dots> = (if i + 1 \<le> j \<and> j < numConsumers then cs[i := cs ! i - k] ! j - k else cs[i := cs ! i - k] ! j)"
      using "1.IH" [OF True] "1.prems" by simp
    also have "\<dots> = (if i \<le> j \<and> j < numConsumers then cs ! j - k else cs ! j)"
      using "1.prems" True by (cases "j = i") (auto simp add: nth_list_update)
    finally show ?thesis .
  qed
qed

section \<open>Counter arithmetic\<close>

lemma unat_m1: "unat (- 1 :: u64) = 18446744073709551615"
  by (simp add: unsigned_minus_1_eq_mask mask_eq_exp_minus_1)

lemma unat_lt: "unat (x :: u64) < 18446744073709551616"
  using unsigned_less [of x, where 'a = nat] by simp

lemma unat_plus_u64: "unat (x + y :: u64) = (if unat x + unat y < 18446744073709551616 then unat x + unat y else unat x + unat y - 18446744073709551616)"
  using unat_lt [of x] unat_lt [of y]
  by (simp add: unat_word_ariths mod_if)

lemma unat_minus_u64: "unat (x - y :: u64) = (if unat y \<le> unat x then unat x - unat y else unat x + 18446744073709551616 - unat y)"
  by (simp add: unat_sub_if_size word_size)

lemma unat_inc: "unat (c :: u64) < unat (p :: u64) \<Longrightarrow> unat (c + 1) = unat c + 1"
  using unat_lt [of p] unat_plus_u64 [of c 1] by simp

lemma unat_inc_max: "p \<noteq> ull_max \<Longrightarrow> unat (p + 1) = unat p + 1"
  using unat_lt [of p] unat_plus_u64 [of p 1] by (auto simp add: ull_max_minus_1 word_unat_eq_iff unat_m1)

lemma unat_rebase: "18446744073709550848 \<le> unat (c :: u64) \<Longrightarrow> unat (c + 768) = unat c - 18446744073709550848"
  using unat_lt [of c] unat_plus_u64 [of c 768] by auto

lemma unat_ull_max: "unat ull_max = 18446744073709551615"
  by (simp add: ull_max_def)

lemma overflow_rebase_at_max:
  "sequence st = ull_max \<Longrightarrow>
   overflow_rebase st =
     st\<lparr>consumer_sequences := rebase_consumers (consumer_sequences st) (- 768) 0,
        sequence := 767\<rparr>"
  unfolding overflow_rebase_def Let_def rebase_amount
  by (simp add: ull_max_def)

lemma overflow_rebase_below_max:
  "sequence st \<noteq> ull_max \<Longrightarrow> overflow_rebase st = st"
  by (simp add: overflow_rebase_def)

lemma overflow_rebase_other [simp]:
  "buffer (overflow_rebase st) = buffer st"
  "producer_running (overflow_rebase st) = producer_running st"
  "consumer_running (overflow_rebase st) = consumer_running st"
  by (simp_all add: overflow_rebase_def Let_def)

section \<open>Iterations of the two loops\<close>

lemma producer_iter_spin: "\<not> gating st 0 \<Longrightarrow> producer_iter st = Inr st"
  by (simp add: producer_iter_def)

lemma producer_iter_admitted:
  "gating st 0 \<Longrightarrow>
   producer_iter st = publish (overflow_rebase st) (message_of (sequence (overflow_rebase st)))"
  by (simp add: producer_iter_def Let_def)

lemma consumer_iter_spin:
  "\<not> consumer_admit i n st \<Longrightarrow> consumer_iter i n d st = Inr (st, None)"
  by (simp add: consumer_iter_def)

lemma consumer_iter_cases:
  assumes "consumer_iter i n d st = Inr (st', r)"
  shows "(\<not> consumer_admit i n st \<and> st' = st \<and> r = None) \<or>
         (consumer_admit i n st \<and> r \<noteq> None \<and>
          st' = st\<lparr>consumer_sequences :=
                    (consumer_sequences st)[i := consumer_sequences st ! i + 1]\<rparr>)"
  using assms by (auto simp add: consumer_iter_def split: if_splits sum.splits)

section \<open>Write and Read on a well-formed ring\<close>

lemma unat_size_glob: "unat size_glob = 256"
  by (simp add: size_glob_256)

lemma mask_255: "(255 :: 'a::len word) = mask 8"
  by (simp add: mask_eq_exp_minus_1)

lemma unat_and_255: "unat ((w :: u32) AND 255) = unat w mod 256"
proof -
  have "unat (w AND mask 8) = take_bit 8 (unat w)"
    by (simp add: unsigned_take_bit_eq flip: take_bit_eq_mask)
  then show ?thesis by (simp add: mask_255 take_bit_eq_mod)
qed

lemma unat_ucast_and_255: "unat ((ucast (s :: u64) :: u32) AND 255) = unat s mod 256"
proof -
  have "unat ((ucast s :: u32) AND mask 8) = take_bit 8 (unat s)"
    by (simp add: unsigned_take_bit_eq unsigned_ucast_eq flip: take_bit_eq_mask)
  then show ?thesis by (simp add: mask_255 take_bit_eq_mod)
qed

lemma unat_ucast_mod_256: "unat (ucast (s :: u64) :: u32) mod 256 = unat s mod 256"
  using unat_ucast_and_255 [of s] by (simp add: unat_and_255)

lemma ring_ok_l: "ring_ok rb \<Longrightarrow> rb_l rb = 255"
  by (simp add: ring_ok_def size_glob_256)

lemma ring_ok_length: "ring_ok rb \<Longrightarrow> length (rb_buffer rb) = 256"
  by (simp add: ring_ok_def unat_size_glob)

lemma ring_ok_block: "ring_ok rb \<Longrightarrow> i < 256 \<Longrightarrow> length (data (rb_buffer rb ! i)) = 63"
  by (simp add: ring_ok_def unat_size_glob list_all_length Block_ok_def)

lemma ring_ok_new:
  "length fresh = unat size_glob \<Longrightarrow> list_all Block_ok fresh \<Longrightarrow> ring_ok (RingBuffer_new p_glob fresh)"
  by (simp add: ring_ok_def RingBuffer_new_def Let_def size_glob_def)

lemma Block_update_eq: "(b :: Block)\<lparr>size_b := s, data := d\<rparr> = \<lparr>data = d, size_b = s\<rparr>"
  by (cases b) simp

text \<open>What \<open>Write\<close> and \<open>Read\<close> compute on a ring of the program's shape.\<close>

lemma Write_ok:
  assumes ok: "ring_ok rb" and n: "unat sz \<le> 63" and src: "unat sz \<le> length src"
  shows "Write rb block_idx src sz =
         Inr (rb\<lparr>rb_buffer := (rb_buffer rb)[unat block_idx mod 256 :=
                \<lparr>data = take (unat sz) src @ drop (unat sz) (data (rb_buffer rb ! (unat block_idx mod 256))),
                 size_b = sz\<rparr>]\<rparr>)"
proof -
  have "unat block_idx mod 256 < 256" by simp
  then have "length (data (rb_buffer rb ! (unat block_idx mod 256))) = 63"
    by (rule ring_ok_block [OF ok])
  with n src show ?thesis
    by (simp add: Write_def Let_def memcpy_def ring_ok_l [OF ok] unat_and_255 Block_update_eq)
qed

lemma Write_overrun:
  assumes ok: "ring_ok rb" and n: "63 < unat sz"
  shows "Write rb block_idx src sz = Inl MemcpyOutOfBounds"
proof -
  have "unat block_idx mod 256 < 256" by simp
  then have "length (data (rb_buffer rb ! (unat block_idx mod 256))) = 63"
    by (rule ring_ok_block [OF ok])
  with n show ?thesis
    by (simp add: Write_def Let_def memcpy_def ring_ok_l [OF ok] unat_and_255)
qed

lemma Write_ring_ok:
  assumes ok: "ring_ok rb" and w: "Write rb block_idx src sz = Inr rb'"
  shows "ring_ok rb'"
proof (cases "unat sz \<le> 63 \<and> unat sz \<le> length src")
  case False
  have "unat block_idx mod 256 < 256" by simp
  then have "length (data (rb_buffer rb ! (unat block_idx mod 256))) = 63"
    by (rule ring_ok_block [OF ok])
  with False w show ?thesis
    by (auto simp add: Write_def Let_def memcpy_def ring_ok_l [OF ok] unat_and_255)
next
  case True
  have i: "unat block_idx mod 256 < 256" by simp
  have len: "length (data (rb_buffer rb ! (unat block_idx mod 256))) = 63"
    by (rule ring_ok_block [OF ok i])
  from True w have rb': "rb' = rb\<lparr>rb_buffer := (rb_buffer rb)[unat block_idx mod 256 :=
                \<lparr>data = take (unat sz) src @ drop (unat sz) (data (rb_buffer rb ! (unat block_idx mod 256))),
                 size_b = sz\<rparr>]\<rparr>"
    by (simp add: Write_ok [OF ok])
  have "Block_ok \<lparr>data = take (unat sz) src @ drop (unat sz) (data (rb_buffer rb ! (unat block_idx mod 256))),
                 size_b = sz\<rparr>"
    using True len by (simp add: Block_ok_def)
  with ok show ?thesis
    unfolding rb' ring_ok_def
    by (auto simp add: list_all_length nth_list_update unat_size_glob)
qed

lemma Read_eq:
  assumes ok: "ring_ok rb"
  shows "Read rb block_idx dest =
         (let b = rb_buffer rb ! (unat block_idx mod 256)
          in if unat (size_b b) \<le> length dest \<and> unat (size_b b) \<le> 63
             then Inr (take (unat (size_b b)) (data b) @ drop (unat (size_b b)) dest, size_b b)
             else Inl MemcpyOutOfBounds)"
proof -
  have "unat block_idx mod 256 < 256" by simp
  then have "length (data (rb_buffer rb ! (unat block_idx mod 256))) = 63"
    by (rule ring_ok_block [OF ok])
  then show ?thesis
    by (simp add: Read_def Let_def memcpy_def ring_ok_l [OF ok] unat_and_255)
qed

text \<open>A write leaves every other slot as it was.\<close>

lemma Write_other_slot:
  assumes ok: "ring_ok rb" and w: "Write rb block_idx src sz = Inr rb'"
    and ne: "unat block_idx mod 256 \<noteq> j"
  shows "rb_buffer rb' ! j = rb_buffer rb ! j"
proof -
  have "unat block_idx mod 256 < 256" by simp
  then have "length (data (rb_buffer rb ! (unat block_idx mod 256))) = 63"
    by (rule ring_ok_block [OF ok])
  with w ne show ?thesis
    by (auto simp add: Write_def Let_def memcpy_def ring_ok_l [OF ok] unat_and_255 split: if_splits)
qed

lemma Write_all_other_slot:
  "ring_ok rb \<Longrightarrow> Write_all rb ws = Inr rb' \<Longrightarrow>
   \<forall>w \<in> set ws. unat (fst w) mod 256 \<noteq> j \<Longrightarrow>
   ring_ok rb' \<and> rb_buffer rb' ! j = rb_buffer rb ! j"
proof (induction ws arbitrary: rb)
  case Nil
  then show ?case by simp
next
  case (Cons w ws)
  obtain i src sz where w: "w = (i, src, sz)" by (cases w)
  from Cons.prems(2) obtain rb1 where w1: "Write rb i src sz = Inr rb1" and rest: "Write_all rb1 ws = Inr rb'"
    by (auto simp add: w split: sum.splits)
  from Cons.prems(1) w1 have ok1: "ring_ok rb1" by (rule Write_ring_ok)
  from Cons.prems(3) have ne: "unat i mod 256 \<noteq> j" and all: "\<forall>w \<in> set ws. unat (fst w) mod 256 \<noteq> j"
    by (simp_all add: w)
  from Cons.IH [OF ok1 rest all] Write_other_slot [OF Cons.prems(1) w1 ne]
  show ?case by simp
qed

lemma ring_ok_blank: "ring_ok blank_ring"
  by (simp add: ring_ok_def blank_ring_def blank_block_def size_glob_256 list_all_length
      Block_ok_def)

section \<open>The producer's message and its write\<close>

lemma length_to_string: "0 < k \<Longrightarrow> n < 10 ^ k \<Longrightarrow> length (to_string n) \<le> k"
proof (induction k arbitrary: n)
  case 0
  then show ?case by simp
next
  case (Suc k)
  show ?case
  proof (cases "n < 10")
    case True
    then show ?thesis by (simp add: to_string.simps [of n])
  next
    case False
    then have k: "0 < k" using Suc.prems(2) by (cases k) auto
    from Suc.prems(2) have "n div 10 < 10 ^ k" by (simp add: less_mult_imp_div_less mult.commute)
    with k have "length (to_string (n div 10)) \<le> k" by (rule Suc.IH)
    with False show ?thesis by (simp add: to_string.simps [of n])
  qed
qed

lemma length_to_string_pos: "1 \<le> length (to_string n)"
  by (simp add: to_string.simps [of n])

lemma length_message_of: "10 \<le> length (message_of s) \<and> length (message_of s) \<le> 29"
proof -
  have "unat s < 10 ^ 20"
    using unat_lt [of s] by simp
  then have "length (to_string (unat s)) \<le> 20"
    by (intro length_to_string) simp_all
  with length_to_string_pos [of "unat s"] show ?thesis by (simp add: message_of_def)
qed

lemma length_c_str [simp]: "length (c_str m) = length m + 1"
  by (simp add: c_str_def)

lemma unat_of_nat_u8: "unat (of_nat n :: u8) = n mod 256"
  by (simp add: unat_of_nat)

text \<open>Lines 92-93 on a ring of the program's shape.\<close>

lemma publish_eq:
  assumes ok: "ring_ok (buffer st)"
  shows "publish st m =
     (if (length m + 1) mod 256 \<le> 63 then
        Inr (st\<lparr>buffer := (buffer st)\<lparr>rb_buffer := (rb_buffer (buffer st))[unat (sequence st) mod 256 :=
                  \<lparr>data = take ((length m + 1) mod 256) (c_str m) @
                          drop ((length m + 1) mod 256) (data (rb_buffer (buffer st) ! (unat (sequence st) mod 256))),
                   size_b = of_nat (length m + 1)\<rparr>]\<rparr>,
                sequence := sequence st + 1\<rparr>)
      else Inl MemcpyOutOfBounds)"
proof -
  have u: "unat (of_nat (length m + 1) :: u8) = (length m + 1) mod 256"
    by (rule unat_of_nat_u8)
  have i: "unat (ucast (sequence st) :: u32) mod 256 = unat (sequence st) mod 256"
    using unat_ucast_and_255 [of "sequence st"] by (simp add: unat_and_255)
  show ?thesis
  proof (cases "(length m + 1) mod 256 \<le> 63")
    case True
    have "(length m + 1) mod 256 \<le> length m + 1" by (rule mod_less_eq_dividend)
    with True have "Write (buffer st) (ucast (sequence st)) (c_str m) (of_nat (length m + 1)) =
        Inr ((buffer st)\<lparr>rb_buffer := (rb_buffer (buffer st))[unat (sequence st) mod 256 :=
                  \<lparr>data = take ((length m + 1) mod 256) (c_str m) @
                          drop ((length m + 1) mod 256) (data (rb_buffer (buffer st) ! (unat (sequence st) mod 256))),
                   size_b = of_nat (length m + 1)\<rparr>]\<rparr>)"
      using Write_ok [OF ok, of "of_nat (length m + 1)" "c_str m" "ucast (sequence st)"]
      by (simp only: u i length_c_str)
    with True show ?thesis by (simp add: publish_def)
  next
    case False
    then have "63 < unat (of_nat (length m + 1) :: u8)" by (simp only: u)
    then have "Write (buffer st) (ucast (sequence st)) (c_str m) (of_nat (length m + 1)) = Inl MemcpyOutOfBounds"
      by (rule Write_overrun [OF ok])
    with False show ?thesis by (simp add: publish_def)
  qed
qed

lemma producer_iter_total:
  assumes ok: "ring_ok (buffer st)"
  shows "\<exists>st'. producer_iter st = Inr st' \<and> ring_ok (buffer st')"
proof (cases "gating st 0")
  case False
  with ok show ?thesis by (simp add: producer_iter_spin)
next
  case True
  let ?r = "overflow_rebase st"
  let ?m = "message_of (sequence ?r)"
  from ok have okr: "ring_ok (buffer ?r)" by simp
  from length_message_of [of "sequence ?r"] have "(length ?m + 1) mod 256 \<le> 63" by simp
  then obtain st' where p: "publish ?r ?m = Inr st'"
    by (simp add: publish_eq [OF okr])
  then obtain rb where w: "Write (buffer ?r) (ucast (sequence ?r)) (c_str ?m) (of_nat (length ?m + 1)) = Inr rb"
    and b: "buffer st' = rb"
    by (auto simp add: publish_def split: sum.splits)
  from okr w have "ring_ok rb" by (rule Write_ring_ok)
  with True p b show ?thesis by (simp add: producer_iter_admitted)
qed

lemma producer_iter_eq:
  assumes ok: "ring_ok (buffer st)" and g: "gating st 0"
  shows "producer_iter st =
     Inr ((overflow_rebase st)
            \<lparr>buffer := (buffer st)\<lparr>rb_buffer := (rb_buffer (buffer st))
                 [unat (sequence (overflow_rebase st)) mod 256 :=
                  \<lparr>data = c_str (message_of (sequence (overflow_rebase st))) @
                          drop (length (c_str (message_of (sequence (overflow_rebase st)))))
                            (data (rb_buffer (buffer st) ! (unat (sequence (overflow_rebase st)) mod 256))),
                   size_b = of_nat (length (c_str (message_of (sequence (overflow_rebase st)))))\<rparr>]\<rparr>,
             sequence := sequence (overflow_rebase st) + 1\<rparr>)"
proof -
  let ?r = "overflow_rebase st"
  let ?m = "message_of (sequence ?r)"
  from ok have okr: "ring_ok (buffer ?r)" by simp
  have n: "(length ?m + 1) mod 256 = length ?m + 1" "length ?m + 1 \<le> 63"
    using length_message_of [of "sequence ?r"] by simp_all
  show ?thesis
    using n by (simp add: producer_iter_admitted [OF g] publish_eq [OF okr])
qed

lemma sequence_changes:
  "sequence (overflow_rebase st) + 1 \<noteq> sequence st"
proof (cases "sequence st = ull_max")
  case True
  then show ?thesis by (simp add: overflow_rebase_at_max) (simp add: ull_max_def)
next
  case False
  then show ?thesis by (simp add: overflow_rebase_below_max)
qed

section \<open>The rebase on all counters\<close>

lemma rebase_consumers_map:
  assumes "length cs = numConsumers"
  shows "rebase_consumers cs k 0 = map (\<lambda>c. c - k) cs"
  using assms by (intro nth_equalityI) (simp_all add: nth_rebase_consumers)

lemma unat_plus_768_mod: "unat (x + 768 :: u64) mod 256 = unat x mod 256"
proof -
  have "unat (x + 768) mod 256 = (unat x + 768) mod 18446744073709551616 mod 256"
    by (simp add: unat_word_ariths)
  also have "\<dots> = (unat x + 768) mod 256"
    by (rule mod_mod_cancel) simp
  also have "\<dots> = (unat x + 3 * 256) mod 256"
    by simp
  also have "\<dots> = unat x mod 256"
    by (rule mod_mult_self1)
  finally show ?thesis .
qed

lemma counters_rebased:
  assumes "sequence st = ull_max" and "length (consumer_sequences st) = numConsumers"
  shows "counters (overflow_rebase st) = map (\<lambda>c. c + 768) (counters st)"
  using assms
  by (simp add: counters_def overflow_rebase_at_max rebase_consumers_map) (simp add: ull_max_def)

section \<open>Consumers: wiring, and counting events\<close>

lemma next_consumer_id_of_last: "i < numConsumers \<Longrightarrow> (next_consumer_id_of i = - 1) = (i = numConsumers - 1)"
  by (simp add: next_consumer_id_of_def)

lemma next_consumer_id_of_inner:
  "i < numConsumers \<Longrightarrow> i \<noteq> numConsumers - 1 \<Longrightarrow> nat (next_consumer_id_of i) = i + 1"
  by (simp add: next_consumer_id_of_def)

lemma count_list_snoc: "count_list (xs @ [x]) y = count_list xs y + (if x = y then 1 else 0)"
  by (induction xs) simp_all

section \<open>Steps and whole iterations\<close>

text \<open>
  In every execution the lists of counters and of program points keep their length,
  and the ring keeps its shape.
\<close>

lemma reach_length:
  "reach tr pp cp st \<Longrightarrow>
   length cp = numConsumers \<and> length (consumer_sequences st) = numConsumers"
  by (induction rule: reach.induct) (simp_all add: initial_def)

lemma reach_ring_ok: "reach tr pp cp st \<Longrightarrow> ring_ok (buffer st)"
proof (induction rule: reach.induct)
  case (start fresh)
  then show ?case by (simp add: initial_def ring_ok_new)
next
  case (producer_write tr cp st message rb)
  then show ?case using Write_ring_ok by simp
qed simp_all

text \<open>
  A thread that runs alone from the head of its loop through one iteration ends where
  \<open>producer_iter\<close> and \<open>consumer_iter\<close> say, and a consumer that evaluates a condition
  alone finds the value of \<open>consumer_loop_cond\<close> and \<open>consumer_admit\<close>: these functions
  are the steps of \<open>reach\<close> taken without interruption.
\<close>

lemma reach_gating:
  "reach tr (P_for i) cp st \<Longrightarrow> reach tr (if gating st i then P_epoch else P_while) cp st"
proof (induction st i rule: gating.induct)
  case (1 st i)
  show ?case
  proof (cases "i < numConsumers")
    case False
    with 1(2) show ?thesis
      by (simp add: gating.simps [of st i] producer_for_done)
  next
    case lt: True
    show ?thesis
    proof (cases "sequence st - consumer_sequences st ! i \<ge> ucast size_glob")
      case True
      with lt 1(2) show ?thesis
        by (simp add: gating.simps [of st i] producer_for_break)
    next
      case False
      from producer_for_next [OF 1(2) lt False]
      have "reach tr (if gating st (i + 1) then P_epoch else P_while) cp st"
        using 1(1) lt False by simp
      with lt False show ?thesis
        by (simp add: gating.simps [of st i])
    qed
  qed
qed

lemma reach_rebase_block:
  "reach tr (P_rebase i) cp st \<Longrightarrow> consumer_sequences st = cs \<Longrightarrow>
   k = (ull_max div ucast size_glob - 2) * ucast size_glob \<Longrightarrow>
   reach tr P_write cp
     (st\<lparr>consumer_sequences := rebase_consumers cs k i, sequence := sequence st - k\<rparr>)"
proof (induction cs k i arbitrary: st rule: rebase_consumers.induct)
  case (1 cs k i)
  show ?case
  proof (cases "i < numConsumers")
    case False
    from 1(3) have "st\<lparr>consumer_sequences := cs, sequence := sequence st - k\<rparr> =
        st\<lparr>sequence := sequence st - k\<rparr>"
      by auto
    moreover from False have "rebase_consumers cs k i = cs"
      by (simp add: rebase_consumers.simps [of cs k i])
    ultimately show ?thesis
      using producer_rebase_own [OF 1(2) False refl] 1(4) by simp
  next
    case True
    from producer_rebase_consumer [OF 1(2) True refl]
    have "reach tr (P_rebase (i + 1)) cp (st\<lparr>consumer_sequences := cs[i := cs ! i - k]\<rparr>)"
      using 1(3,4) by simp
    from 1(1) [OF True this _ 1(4)] True show ?thesis
      by (simp add: rebase_consumers.simps [of cs k i])
  qed
qed

lemma reach_producer_iter:
  assumes r: "reach tr P_while cp st" and run: "producer_running st"
    and it: "producer_iter st = Inr st'"
  shows "reach (if gating st 0 then tr @ [Published] else tr) P_while cp st'"
proof (cases "gating st 0")
  case False
  with reach_gating [OF producer_while_enter [OF r run]] it show ?thesis
    by (simp add: producer_iter_spin)
next
  case True
  with reach_gating [OF producer_while_enter [OF r run]]
  have e: "reach tr P_epoch cp st" by simp
  have w: "reach tr P_write cp (overflow_rebase st)"
  proof (cases "sequence st = ull_max")
    case False
    with producer_epoch_below [OF e] show ?thesis by (simp add: overflow_rebase_below_max)
  next
    case True
    from reach_rebase_block [OF producer_epoch_max [OF e True] refl refl] True
    show ?thesis by (simp add: overflow_rebase_def Let_def)
  qed
  from it True obtain rb where
    wr: "Write (buffer (overflow_rebase st)) (ucast (sequence (overflow_rebase st)))
           (c_str (message_of (sequence (overflow_rebase st))))
           (of_nat (length (message_of (sequence (overflow_rebase st))) + 1)) = Inr rb"
    and st': "st' = (overflow_rebase st)\<lparr>buffer := rb, sequence := sequence (overflow_rebase st) + 1\<rparr>"
    by (auto simp add: producer_iter_admitted publish_def split: sum.splits)
  from producer_publish [OF producer_write [OF w refl wr]] True st' show ?thesis
    by simp
qed

lemma reach_compare:
  assumes r: "reach tr pp cp st" and i: "i < numConsumers" and at: "cp ! i = C_cmp k None None"
  shows "reach tr pp
           (cp[i := if consumer_sequences st ! i < right_operand k i st
                    then when_true k i else when_false k]) st"
proof -
  from reach_length [OF r] i have len: "i < length cp" by simp
  note l = consumer_load_left [OF r i at]
  from len have "cp[i := C_cmp k (Some (consumer_sequences st ! i)) None] ! i =
                 C_cmp k (Some (consumer_sequences st ! i)) None"
    by simp
  from consumer_load_right [OF l i this]
  have b: "reach tr pp
             (cp[i := C_cmp k (Some (consumer_sequences st ! i)) (Some (right_operand k i st))]) st"
    by simp
  from len have at_b:
    "cp[i := C_cmp k (Some (consumer_sequences st ! i)) (Some (right_operand k i st))] ! i =
     C_cmp k (Some (consumer_sequences st ! i)) (Some (right_operand k i st))"
    by simp
  show ?thesis
  proof (cases "consumer_sequences st ! i < right_operand k i st")
    case True
    with consumer_cmp_true [OF b i at_b True] show ?thesis by simp
  next
    case False
    with consumer_cmp_false [OF b i at_b False] show ?thesis by simp
  qed
qed

lemma reach_consumer_enter:
  assumes r: "reach tr pp cp st" and i: "i < numConsumers" and at: "cp ! i = C_while"
    and run: "consumer_loop_cond i st"
  shows "reach tr pp (cp[i := C_cmp Cmp_if None None]) st"
proof (cases "consumer_running st")
  case True
  then show ?thesis by (rule consumer_while_running [OF r i at])
next
  case False
  from reach_length [OF r] i have len: "i < length cp" by simp
  then have "cp[i := C_cmp Cmp_while None None] ! i = C_cmp Cmp_while None None" by simp
  from reach_compare [OF consumer_while_stopped [OF r i at False] i this] run False
  show ?thesis by (simp add: consumer_loop_cond_def)
qed


lemma reach_consumer_admit:
  assumes r: "reach tr pp cp st" and i: "i < numConsumers"
    and at: "cp ! i = C_cmp Cmp_if None None"
  shows "reach tr pp
           (cp[i := if consumer_admit i (next_consumer_id_of i) st then C_read else C_while]) st"
proof -
  from reach_length [OF r] i have len: "i < length cp" by simp
  note c = reach_compare [OF r i at]
  show ?thesis
  proof (cases "consumer_sequences st ! i < sequence st")
    case False
    with c show ?thesis by (simp add: consumer_admit_def)
  next
    case lt: True
    show ?thesis
    proof (cases "next_consumer_id_of i = - 1")
      case True
      with c lt show ?thesis by (simp add: consumer_admit_def)
    next
      case False
      with c lt have u: "reach tr pp (cp[i := C_cmp Cmp_up None None]) st" by simp
      from len have "cp[i := C_cmp Cmp_up None None] ! i = C_cmp Cmp_up None None" by simp
      from reach_compare [OF u i this] lt False show ?thesis
        by (auto simp add: consumer_admit_def)
    qed
  qed
qed

lemma reach_consumer_iter:
  assumes r: "reach tr pp cp st" and i: "i < numConsumers" and at: "cp ! i = C_while"
    and run: "consumer_loop_cond i st" and d: "length local_data = 64"
    and it: "consumer_iter i (next_consumer_id_of i) local_data st = Inr (st', res)"
  shows "reach (if res = None then tr else tr @ [Delivered i]) pp cp st'"
proof -
  from reach_length [OF r] i have len: "i < length cp" by simp
  note e = reach_consumer_enter [OF r i at run]
  from len have at_if: "cp[i := C_cmp Cmp_if None None] ! i = C_cmp Cmp_if None None" by simp
  from at list_update_id [of cp i] have id: "cp[i := C_while] = cp" by simp
  note a = reach_consumer_admit [OF e i at_if]
  from consumer_iter_cases [OF it] show ?thesis
  proof (elim disjE conjE)
    assume "\<not> consumer_admit i (next_consumer_id_of i) st" "st' = st" "res = None"
    with a show ?thesis
      by (simp add: id)
  next
    assume adm: "consumer_admit i (next_consumer_id_of i) st" and res: "res \<noteq> None"
      and st': "st' = st\<lparr>consumer_sequences :=
                    (consumer_sequences st)[i := consumer_sequences st ! i + 1]\<rparr>"
    from it adm obtain v where
      rd: "Read (buffer st) (ucast (consumer_sequences st ! i)) local_data = Inr v"
      by (auto simp add: consumer_iter_def split: sum.splits)
    from a adm have ar: "reach tr pp (cp[i := C_read]) st" by simp
    from len have at_read: "cp[i := C_read] ! i = C_read" by simp
    from len have at_adv: "cp[i := C_read, i := C_advance] ! i = C_advance" by simp
    from consumer_advance [OF consumer_read [OF ar i at_read d rd] i at_adv]
    show ?thesis using res st' by (auto simp add: id)
  qed
qed

section \<open>The counters in every execution\<close>


lemma near_max_iff: "(ull_max - 255 \<le> (c :: u64)) = (18446744073709551360 \<le> unat c)"
  by (simp add: word_le_nat_alt ull_max_def)

lemma near_max_of_gate:
  assumes "\<not> ucast size_glob \<le> ull_max - (c :: u64)"
  shows "ull_max - 255 \<le> c"
proof -
  have "unat (ull_max - c) = 18446744073709551615 - unat c"
    using unat_lt [of c] by (simp add: unat_minus_u64 unat_ull_max)
  with assms have "18446744073709551360 \<le> unat c"
    by (simp add: ucast_size_glob word_le_nat_alt)
  then show ?thesis by (simp only: near_max_iff)
qed

lemma near_max_inc:
  assumes "ull_max - 255 \<le> (c :: u64)" and "c \<noteq> ull_max"
  shows "ull_max - 255 \<le> c + 1"
  using assms unat_inc_max [OF assms(2)] by (simp add: near_max_iff)

lemma rebased_not_max:
  assumes "ull_max - 255 \<le> (c :: u64)"
  shows "c - (ull_max div ucast size_glob - 2) * ucast size_glob \<noteq> ull_max"
proof -
  from assms have "18446744073709550848 \<le> unat c" by (simp add: near_max_iff)
  from unat_rebase [OF this] unat_lt [of c]
  have "unat (c + 768) \<noteq> unat ull_max" by (simp add: unat_ull_max)
  then show ?thesis by (auto simp add: rebase_amount)
qed

lemma ull_max_rebased_not_max:
  "ull_max - (ull_max div ucast size_glob - 2) * ucast size_glob \<noteq> ull_max"
  by (simp add: rebase_amount)

text \<open>No increment and no subtraction of lines 87, 89, 93 and 112 wraps.\<close>

lemma reach_counters_steady: "reach tr pp cp st \<Longrightarrow> counters_steady pp cp st"
proof (induction rule: reach.induct)
  case (start fresh)
  then show ?case by (simp add: counters_steady_def initial_def)
next
  case (producer_while_enter tr cp st)
  then show ?case by (simp add: counters_steady_def)
next
  case (producer_while_exit tr cp st)
  then show ?case by (simp add: counters_steady_def)
next
  case (producer_for_break tr i cp st)
  then show ?case by (simp add: counters_steady_def)
next
  case (producer_for_next tr i cp st)
  then show ?case
    using near_max_of_gate [of "consumer_sequences st ! i"]
    by (auto simp add: counters_steady_def less_Suc_eq)
next
  case (producer_for_done tr i cp st)
  then show ?case by (auto simp add: counters_steady_def)
next
  case (producer_epoch_max tr cp st)
  then show ?case by (simp add: counters_steady_def)
next
  case (producer_epoch_below tr cp st)
  then show ?case by (simp add: counters_steady_def)
next
  case (producer_rebase_consumer tr i cp st c)
  then show ?case
    using rebased_not_max [of "consumer_sequences st ! i"] reach_length [of tr "P_rebase i" cp st]
    by (auto simp add: counters_steady_def nth_list_update)
next
  case (producer_rebase_own tr i cp st c)
  then show ?case
    using ull_max_rebased_not_max by (simp add: counters_steady_def)
next
  case (producer_write tr cp st message rb)
  then show ?case by (simp add: counters_steady_def)
next
  case (producer_publish tr cp st)
  then show ?case by (simp add: counters_steady_def)
next
  case (consumer_while_running tr pp cp st i)
  then show ?case
    using reach_length [of tr pp cp st]
    by (auto simp add: counters_steady_def nth_list_update)
next
  case (consumer_while_stopped tr pp cp st i)
  then show ?case
    using reach_length [of tr pp cp st]
    by (auto simp add: counters_steady_def nth_list_update)
next
  case (consumer_load_left tr pp cp st i k b)
  then show ?case
    using reach_length [of tr pp cp st]
    by (cases k) (auto simp add: counters_steady_def nth_list_update)
next
  case (consumer_load_right tr pp cp st i k a)
  then show ?case
    using reach_length [of tr pp cp st]
    by (cases k; cases a) (auto simp add: counters_steady_def nth_list_update)
next
  case (consumer_cmp_true tr pp cp st i k a b)
  then have "a \<noteq> ull_max" by (auto simp add: ull_max_minus_1)
  with consumer_cmp_true show ?case
    using reach_length [of tr pp cp st]
    by (cases k) (auto simp add: counters_steady_def nth_list_update)
next
  case (consumer_cmp_false tr pp cp st i k a b)
  then show ?case
    using reach_length [of tr pp cp st]
    by (cases k) (auto simp add: counters_steady_def nth_list_update)
next
  case (consumer_read tr pp cp st i local_data r)
  then show ?case
    using reach_length [of tr pp cp st]
    by (auto simp add: counters_steady_def nth_list_update)
next
  case (consumer_advance tr pp cp st i)
  then show ?case
    using reach_length [of tr pp cp st] near_max_inc [of "consumer_sequences st ! i"]
    by (auto simp add: counters_steady_def nth_list_update)
next
  case (stop_producer tr pp cp st)
  then show ?case by (simp add: counters_steady_def)
next
  case (stop_consumers tr cp st)
  then show ?case by (simp add: counters_steady_def)
qed






section \<open>Executions before the counter wraps\<close>

text \<open>
  The producer's counter reaches \<open>ull_max\<close> with the \<open>2^64 - 1\<close>-th publication. Until
  then it equals the number of publications, the block of lines 85-89 has not been
  entered, and the counters are in order, whatever the interleaving.
\<close>

lemma right_operand_other [simp]:
  "right_operand k i (st\<lparr>buffer := rb\<rparr>) = right_operand k i st"
  "right_operand k i (st\<lparr>producer_running := f\<rparr>) = right_operand k i st"
  "right_operand k i (st\<lparr>consumer_running := f\<rparr>) = right_operand k i st"
  by (cases k; simp)+

lemma orderly_update:
  assumes "orderly pp cp st" and "length cp = numConsumers" and "j < numConsumers"
    and "orderly_at pp x j st"
  shows "orderly pp (cp[j := x]) st"
  using assms unfolding orderly_def
  by (auto simp add: nth_list_update)

lemma orderly_at_idle:
  assumes "orderly_at pp pc j st"
    and "left_read x = None" and "right_read x = None" and "\<not> past_first x"
  shows "orderly_at pp x j st"
proof -
  from assms(4) have "\<not> past_both x" by (cases x) simp_all
  with assms show ?thesis by (simp add: orderly_at_def)
qed

lemma orderly_at_producer:
  assumes "orderly pp cp st" and "i < numConsumers"
  shows "orderly_at pp (cp ! i) i st"
  using assms by (simp add: orderly_def)

lemma gate_open_nat:
  assumes "\<not> ucast size_glob \<le> (s :: u64) - c" and "unat c \<le> unat s"
  shows "unat s < unat c + 256"
  using assms by (simp add: ucast_size_glob word_le_nat_alt unat_minus_u64)

lemma reach_before_wrap:
  "reach tr pp cp st \<Longrightarrow> count_list tr Published < 18446744073709551615 \<Longrightarrow>
   unat (sequence st) = count_list tr Published \<and> (\<forall>j. pp \<noteq> P_rebase j)"
proof (induction rule: reach.induct)
  case (producer_epoch_max tr cp st)
  then show ?case by (simp add: unat_ull_max)
next
  case (producer_publish tr cp st)
  then have "unat (sequence st) = count_list tr Published"
    and lt: "count_list tr Published + 1 < 18446744073709551615"
    by (simp_all add: count_list_snoc)
  then have "sequence st \<noteq> ull_max" using unat_ull_max by auto
  from unat_inc_max [OF this] \<open>unat (sequence st) = count_list tr Published\<close>
  show ?case
    by (simp add: count_list_snoc)
qed (simp_all add: initial_def count_list_snoc)

lemma reach_orderly:
  "reach tr pp cp st \<Longrightarrow> count_list tr Published < 18446744073709551615 \<Longrightarrow>
   orderly pp cp st"
proof (induction rule: reach.induct)
  case (start fresh)
  then show ?case by (simp add: orderly_def orderly_at_def initial_def)
next
  case (producer_while_enter tr cp st)
  then show ?case by (simp add: orderly_def orderly_at_def)
next
  case (producer_while_exit tr cp st)
  then show ?case by (simp add: orderly_def orderly_at_def)
next
  case (producer_for_break tr i cp st)
  then show ?case by (simp add: orderly_def orderly_at_def)
next
  case (producer_for_next tr i cp st)
  then show ?case
    using gate_open_nat [of "sequence st" "consumer_sequences st ! i"]
    by (auto simp add: orderly_def orderly_at_def less_Suc_eq)
next
  case (producer_for_done tr i cp st)
  then show ?case by (auto simp add: orderly_def orderly_at_def)
next
  case (producer_epoch_max tr cp st)
  then show ?case by (simp add: orderly_def orderly_at_def)
next
  case (producer_epoch_below tr cp st)
  then show ?case by (simp add: orderly_def orderly_at_def)
next
  case (producer_rebase_consumer tr i cp st c)
  then show ?case using reach_before_wrap [of tr "P_rebase i" cp st] by simp
next
  case (producer_rebase_own tr i cp st c)
  then show ?case using reach_before_wrap [of tr "P_rebase i" cp st] by simp
next
  case (producer_write tr cp st message rb)
  then show ?case by (simp add: orderly_def orderly_at_def)
next
  case (producer_publish tr cp st)
  then have o: "orderly P_publish cp st"
    and lt: "count_list tr Published + 1 < 18446744073709551615"
    by (simp_all add: count_list_snoc)
  with reach_before_wrap [OF producer_publish(1)] have "sequence st \<noteq> ull_max"
    using unat_ull_max by auto
  note inc = unat_inc_max [OF this]
  show ?case
    unfolding orderly_def
  proof (intro allI impI)
    fix i assume i: "i < numConsumers"
    from o i have a: "orderly_at P_publish (cp ! i) i st" by (simp add: orderly_def)
    have r: "unat (right_operand k i st) \<le> unat (right_operand k i (st\<lparr>sequence := sequence st + 1\<rparr>))"
      for k
      using inc by (cases k) simp_all
    from a have "\<forall>k b. right_read (cp ! i) = Some (k, b) \<longrightarrow>
        unat b \<le> unat (right_operand k i (st\<lparr>sequence := sequence st + 1\<rparr>))"
      using r le_trans unfolding orderly_at_def by blast
    with a inc show "orderly_at P_while (cp ! i) i (st\<lparr>sequence := sequence st + 1\<rparr>)"
      unfolding orderly_at_def
      by (simp del: right_operand.simps)
  qed
next
  case (consumer_while_running tr pp cp st i)
  then show ?case
    using reach_length [of tr pp cp st]
    by (simp add: orderly_update orderly_at_idle [OF orderly_at_producer])
next
  case (consumer_while_stopped tr pp cp st i)
  then show ?case
    using reach_length [of tr pp cp st]
    by (simp add: orderly_update orderly_at_idle [OF orderly_at_producer])
next
  case (consumer_load_left tr pp cp st i k b)
  then have o: "orderly pp cp st" and len: "length cp = numConsumers" and i: "i < numConsumers"
    and at: "cp ! i = C_cmp k None b"
    using reach_length [of tr pp cp st] by simp_all
  from orderly_at_producer [OF o i] at
  have "orderly_at pp (C_cmp k (Some (consumer_sequences st ! i)) b) i st"
    by (cases k; cases b) (simp_all add: orderly_at_def)
  with o len i show ?case by (simp add: orderly_update)
next
  case (consumer_load_right tr pp cp st i k a)
  then have o: "orderly pp cp st" and len: "length cp = numConsumers" and i: "i < numConsumers"
    and at: "cp ! i = C_cmp k a None"
    using reach_length [of tr pp cp st] by simp_all
  from orderly_at_producer [OF o i] at
  have "orderly_at pp (C_cmp k a (Some (right_operand k i st))) i st"
    by (cases k; cases a) (simp_all add: orderly_at_def)
  with o len i show ?case by (simp add: orderly_update)
next
  case (consumer_cmp_true tr pp cp st i k a b)
  then have o: "orderly pp cp st" and len: "length cp = numConsumers" and i: "i < numConsumers"
    and at: "cp ! i = C_cmp k (Some a) (Some b)" and lt: "a < b"
    using reach_length [of tr pp cp st] by simp_all
  note oi = orderly_at_producer [OF o i]
  from oi at have a: "a = consumer_sequences st ! i"
    and b: "unat b \<le> unat (right_operand k i st)"
    by (simp_all add: orderly_at_def)
  from lt a b have c: "unat (consumer_sequences st ! i) < unat (right_operand k i st)"
    by (simp add: word_less_nat_alt)
  have "orderly_at pp (when_true k i) i st"
  proof (cases k)
    case Cmp_while
    with oi show ?thesis by (simp add: orderly_at_idle)
  next
    case Cmp_if
    with c have s: "unat (consumer_sequences st ! i) < unat (sequence st)" by simp
    show ?thesis
    proof (cases "next_consumer_id_of i = - 1")
      case True
      with i have "\<not> i + 1 < numConsumers" by (simp add: next_consumer_id_of_last)
      with oi s Cmp_if True show ?thesis by (simp add: orderly_at_def)
    next
      case False
      with oi s Cmp_if show ?thesis by (simp add: orderly_at_def)
    qed
  next
    case Cmp_up
    with oi at have s: "unat (consumer_sequences st ! i) < unat (sequence st)"
      by (simp add: orderly_at_def)
    have "unat (consumer_sequences st ! i) < unat (consumer_sequences st ! (i + 1))"
      if "i + 1 < numConsumers"
    proof -
      from that have "i \<noteq> numConsumers - 1" by simp
      from next_consumer_id_of_inner [OF i this] c Cmp_up show ?thesis by simp
    qed
    with oi s Cmp_up show ?thesis by (simp add: orderly_at_def)
  qed
  with o len i show ?case by (simp add: orderly_update)
next
  case (consumer_cmp_false tr pp cp st i k a b)
  then have o: "orderly pp cp st" and len: "length cp = numConsumers" and i: "i < numConsumers"
    using reach_length [of tr pp cp st] by simp_all
  from orderly_at_producer [OF o i] have "orderly_at pp (when_false k) i st"
    by (cases k) (simp_all add: orderly_at_idle)
  with o len i show ?case by (simp add: orderly_update)
next
  case (consumer_read tr pp cp st i local_data r)
  then have o: "orderly pp cp st" and len: "length cp = numConsumers" and i: "i < numConsumers"
    and at: "cp ! i = C_read"
    using reach_length [of tr pp cp st] by simp_all
  from orderly_at_producer [OF o i] at have "orderly_at pp C_advance i st"
    by (simp add: orderly_at_def)
  with o len i show ?case by (simp add: orderly_update)
next
  case (consumer_advance tr pp cp st i)
  then have o: "orderly pp cp st" and len: "length cp = numConsumers" and i: "i < numConsumers"
    and at: "cp ! i = C_advance"
    and lcs: "length (consumer_sequences st) = numConsumers"
    using reach_length [of tr pp cp st] by (simp_all add: count_list_snoc)
  from orderly_at_producer [OF o i] at
  have lt: "unat (consumer_sequences st ! i) < unat (sequence st)"
    by (simp add: orderly_at_def)
  then have inc: "unat (consumer_sequences st ! i + 1) = unat (consumer_sequences st ! i) + 1"
    by (rule unat_inc)
  let ?st = "st\<lparr>consumer_sequences := (consumer_sequences st)[i := consumer_sequences st ! i + 1]\<rparr>"
  let ?cp = "cp[i := C_while]"
  have grow: "unat (consumer_sequences st ! k) \<le> unat (consumer_sequences ?st ! k)" for k
    using lcs inc i by (cases "k = i") simp_all
  have r: "unat (right_operand q k st) \<le> unat (right_operand q k ?st)" for q k
    using grow by (cases q) simp_all
  show ?case
    unfolding orderly_def
  proof (intro allI impI)
    fix k assume k: "k < numConsumers"
    note ok = orderly_at_producer [OF o k]
    show "orderly_at pp (?cp ! k) k ?st"
    proof (cases "k = i")
      case True
      from len i have c: "?cp ! i = C_while" by simp
      from lcs i inc
      have own: "unat (consumer_sequences ?st ! i) = unat (consumer_sequences st ! i) + 1"
        by simp
      have up: "consumer_sequences ?st ! (i + 1) = consumer_sequences st ! (i + 1)"
        by simp
      have s: "sequence ?st = sequence st" by simp
      from ok at lt show ?thesis
        unfolding True orderly_at_def c own up s
        by auto
    next
      case False
      with len k have c: "?cp ! k = cp ! k" by simp
      from False k lcs have own: "consumer_sequences ?st ! k = consumer_sequences st ! k"
        by simp
      have up: "unat (consumer_sequences st ! (k + 1)) \<le> unat (consumer_sequences ?st ! (k + 1))"
        by (rule grow)
      from ok have "\<forall>q b. right_read (cp ! k) = Some (q, b) \<longrightarrow> unat b \<le> unat (right_operand q k ?st)"
        using r le_trans unfolding orderly_at_def by blast
      with ok up show ?thesis
        unfolding orderly_at_def c own
        by (simp del: right_operand.simps) linarith
    qed
  qed
next
  case (stop_producer tr pp cp st)
  then show ?case by (simp add: orderly_def orderly_at_def)
next
  case (stop_consumers tr cp st)
  then show ?case by (simp add: orderly_def orderly_at_def)
qed

lemma bound_before_wrap:
  assumes r: "reach tr pp cp st" and b: "count_list tr Published < 18446744073709551615"
  shows "(\<forall>i < numConsumers.
            consumer_sequences st ! i \<le> sequence st \<and>
            sequence st - consumer_sequences st ! i \<le> ucast size_glob) \<and>
         Min (set (consumer_sequences st)) \<le> sequence st \<and>
         sequence st - Min (set (consumer_sequences st)) \<le> ucast size_glob"
proof -
  from reach_orderly [OF r b] have o: "orderly pp cp st" .
  have w: "consumer_sequences st ! i \<le> sequence st \<and>
           sequence st - consumer_sequences st ! i \<le> ucast size_glob"
    if i: "i < numConsumers" for i
  proof -
    from o i have "unat (consumer_sequences st ! i) \<le> unat (sequence st)"
      and "unat (sequence st) \<le> unat (consumer_sequences st ! i) + 256"
      by (simp_all add: orderly_def orderly_at_def)
    then show ?thesis
      by (simp add: word_le_nat_alt unat_minus_u64 ucast_size_glob)
  qed
  from reach_length [OF r] have len: "length (consumer_sequences st) = numConsumers" by simp
  then have "set (consumer_sequences st) \<noteq> {}" by (auto simp add: numConsumers_def)
  then have "Min (set (consumer_sequences st)) \<in> set (consumer_sequences st)"
    by (intro Min_in) simp_all
  then obtain j where j: "j < numConsumers"
    and m: "Min (set (consumer_sequences st)) = consumer_sequences st ! j"
    using len by (auto simp add: in_set_conv_nth)
  from w w [OF j] show ?thesis by (simp add: m)
qed

lemma chain_before_wrap:
  assumes r: "reach tr pp cp st" and b: "count_list tr Published < 18446744073709551615"
    and i: "i + 1 < numConsumers"
  shows "consumer_sequences st ! i \<le> consumer_sequences st ! (i + 1)"
  using reach_orderly [OF r b] i by (simp add: orderly_def orderly_at_def word_le_nat_alt)

section \<open>No access runs out of bounds\<close>

text \<open>
  The slot that the producer writes is the slot of the number of publications so
  far, also after a rebase, and once a slot has been written it holds a length of at
  most 30.
\<close>

lemma reach_slot_of_sequence:
  "reach tr pp cp st \<Longrightarrow> unat (sequence st) mod 256 = count_list tr Published mod 256"
proof (induction rule: reach.induct)
  case (producer_rebase_own tr i cp st c)
  then show ?case by (simp add: rebase_amount unat_plus_768_mod)
next
  case (producer_publish tr cp st)
  from reach_counters_steady [OF producer_publish(1)]
  have "sequence st \<noteq> ull_max" by (simp add: counters_steady_def)
  from unat_inc_max [OF this] producer_publish(2) show ?case
    by (simp add: count_list_snoc mod_Suc)
qed (simp_all add: initial_def count_list_snoc)

lemma reach_slots_written:
  "reach tr pp cp st \<Longrightarrow>
   slots_written (count_list tr Published + (if pp = P_publish then 1 else 0)) (buffer st)"
proof (induction rule: reach.induct)
  case (start fresh)
  then show ?case by (simp add: slots_written_def initial_def ring_ok_new)
next
  case (producer_write tr cp st message rb)
  let ?n = "count_list tr Published"
  let ?m = "message_of (sequence st)"
  from producer_write have w: "slots_written ?n (buffer st)" by simp
  then have ok: "ring_ok (buffer st)" by (simp add: slots_written_def)
  have le: "(length ?m + 1) mod 256 \<le> 63"
    using length_message_of [of "sequence st"] by simp
  from producer_write(2,3)
  have "publish st ?m = Inr (st\<lparr>buffer := rb, sequence := sequence st + 1\<rparr>)"
    by (simp add: publish_def)
  with publish_eq [OF ok, of ?m] le
  have "buffer (st\<lparr>buffer := rb, sequence := sequence st + 1\<rparr>) =
        (buffer st)\<lparr>rb_buffer := (rb_buffer (buffer st))[unat (sequence st) mod 256 :=
                  \<lparr>data = take ((length ?m + 1) mod 256) (c_str ?m) @
                          drop ((length ?m + 1) mod 256) (data (rb_buffer (buffer st) ! (unat (sequence st) mod 256))),
                   size_b = of_nat (length ?m + 1)\<rparr>]\<rparr>"
    by simp
  then have rb: "rb = (buffer st)\<lparr>rb_buffer := (rb_buffer (buffer st))[?n mod 256 :=
                  \<lparr>data = take ((length ?m + 1) mod 256) (c_str ?m) @
                          drop ((length ?m + 1) mod 256) (data (rb_buffer (buffer st) ! (?n mod 256))),
                   size_b = of_nat (length ?m + 1)\<rparr>]\<rparr>"
    by (simp add: reach_slot_of_sequence [OF producer_write(1)])
  from Write_ring_ok [OF ok] producer_write(2,3) have ok': "ring_ok rb" by simp
  have sz: "unat (of_nat (length ?m + 1) :: u8) \<le> 63"
    using length_message_of [of "sequence st"] by (simp only: unat_of_nat_u8) simp
  have "unat (size_b (rb_buffer rb ! j)) \<le> 63" if j: "j < 256" "j < ?n + 1" for j
  proof (cases "j = ?n mod 256")
    case True
    with sz ring_ok_length [OF ok] j show ?thesis by (simp add: rb)
  next
    case False
    with j have "j < ?n" by (cases "j = ?n") simp_all
    with w j False show ?thesis by (simp add: slots_written_def rb)
  qed
  with ok' show ?case by (simp add: slots_written_def)
qed (simp_all add: count_list_snoc)

text \<open>
  So in every execution the \<^verbatim>\<open>Write\<close> of line 92 and the \<^verbatim>\<open>Read\<close> of line 111
  succeed: a thread at one of these lines can take its step.
\<close>

lemma reach_write_publish:
  assumes r: "reach tr P_write cp st"
  shows "\<exists>rb. reach (tr @ [Published]) P_while cp (st\<lparr>buffer := rb, sequence := sequence st + 1\<rparr>)"
proof -
  from reach_ring_ok [OF r] have ok: "ring_ok (buffer st)" .
  have "(length (message_of (sequence st)) + 1) mod 256 \<le> 63"
    using length_message_of [of "sequence st"] by simp
  with publish_eq [OF ok, of "message_of (sequence st)"] obtain rb where
    w: "Write (buffer st) (ucast (sequence st)) (c_str (message_of (sequence st)))
              (of_nat (length (message_of (sequence st)) + 1)) = Inr rb"
    by (auto simp add: publish_def split: sum.splits)
  from producer_publish [OF producer_write [OF r refl w]] show ?thesis
    by auto
qed

lemma reach_read_ok:
  assumes r: "reach tr pp cp st" and i: "i < numConsumers" and at: "cp ! i = C_read"
    and d: "length local_data = 64"
  shows "\<exists>res. Read (buffer st) (ucast (consumer_sequences st ! i)) local_data = Inr res"
proof -
  let ?n = "count_list tr Published"
  let ?j = "unat (consumer_sequences st ! i) mod 256"
  from reach_slots_written [OF r] have w: "slots_written ?n (buffer st)"
    by (auto simp add: slots_written_def)
  then have ok: "ring_ok (buffer st)" by (simp add: slots_written_def)
  have "?j < ?n"
  proof (cases "256 \<le> ?n")
    case True
    have "?j < 256" by simp
    with True show ?thesis by linarith
  next
    case False
    then have b: "?n < 18446744073709551615" by simp
    from reach_orderly [OF r b] i at
    have "unat (consumer_sequences st ! i) < unat (sequence st)"
      by (simp add: orderly_def orderly_at_def)
    with reach_before_wrap [OF r b] mod_less_eq_dividend [of "unat (consumer_sequences st ! i)" 256]
    show ?thesis by linarith
  qed
  with w have "unat (size_b (rb_buffer (buffer st) ! ?j)) \<le> 63"
    by (simp add: slots_written_def)
  with d show ?thesis
    by (simp add: Read_eq [OF ok] Let_def unat_ucast_mod_256)
qed

section \<open>A concrete execution\<close>

text \<open>
  The producer publishes one message; consumers 3, 2, 1 and 0 read it in this order
  (a consumer may only follow the next one); then both flags are cleared and consumer
  0 leaves its loop.
\<close>

lemma ring_ok_blank_state: "ring_ok (buffer blank_state)"
  by (simp add: blank_state_def initial_def ring_ok_new unat_size_glob list_all_length Block_ok_def blank_block_def)

lemma blank_state_simps:
  "sequence blank_state = 0"
  "consumer_sequences blank_state = replicate 4 0"
  "producer_running blank_state"
  "consumer_running blank_state"
  by (simp_all add: blank_state_def initial_def numConsumers_def)

lemma replicate_4: "replicate 4 x = [x, x, x, x]"
  by (simp add: numeral_eq_Suc)

lemma blank_state_slot: "i < 256 \<Longrightarrow> rb_buffer (buffer blank_state) ! i = blank_block"
  by (simp add: blank_state_def initial_def RingBuffer_new_def Let_def p_glob_def)

lemma numConsumers_4: "replicate numConsumers x = [x, x, x, x]"
  by (simp add: numConsumers_def replicate_4)

lemma reach_blank:
  "reach [] P_while [C_while, C_while, C_while, C_while] blank_state"
proof -
  have "reach [] P_while (replicate numConsumers C_while) (initial (replicate 256 blank_block))"
    by (rule start) (simp_all add: unat_size_glob list_all_length Block_ok_def blank_block_def)
  then show ?thesis by (simp add: numConsumers_4 blank_state_def)
qed

lemma gating_blank: "gating blank_state 0"
  by (simp add: gating_iff blank_state_simps numConsumers_def)

lemma char_of_48: "char_of (48 :: nat) = CHR ''0''"
  by code_simp

lemma message_of_0: "message_of 0 = ''Message: 0''"
  by (simp add: message_of_def to_string.simps [of 0] char_of_48)

lemma producer_iter_blank: "producer_iter blank_state = Inr (demo_state [0, 0, 0, 0] True True)"
proof -
  have r: "overflow_rebase blank_state = blank_state"
    by (rule overflow_rebase_below_max) (simp add: blank_state_simps ull_max_def)
  have l: "length (c_str ''Message: 0'') = 11"
    by (simp add: c_str_def)
  have d: "drop 11 (data blank_block) = replicate 52 0"
    by (simp add: blank_block_def)
  have "producer_iter blank_state =
     Inr (blank_state
            \<lparr>buffer := (buffer blank_state)\<lparr>rb_buffer := (rb_buffer (buffer blank_state))
                 [0 := \<lparr>data = c_str ''Message: 0'' @ replicate 52 0, size_b = 11\<rparr>]\<rparr>,
             sequence := 1\<rparr>)"
    using producer_iter_eq [OF ring_ok_blank_state gating_blank]
    by (simp only: r blank_state_simps message_of_0 l d) (simp add: blank_state_slot d)
  then show ?thesis
    by (simp add: demo_state_def first_message_ring_def blank_state_simps blank_state_def initial_def replicate_4 numConsumers_def)
qed

lemma reach_demo_0:
  "reach [Published] P_while [C_while, C_while, C_while, C_while] (demo_state [0, 0, 0, 0] True True)"
  using reach_producer_iter [OF reach_blank _ producer_iter_blank] gating_blank
  by (simp add: blank_state_simps)

lemma ring_ok_first_message: "ring_ok first_message_ring"
proof -
  have "Write (buffer blank_state) 0 (c_str ''Message: 0'') 11 = Inr first_message_ring"
    by (simp add: Write_ok [OF ring_ok_blank_state] first_message_ring_def c_str_def
        blank_state_slot blank_block_def)
  with ring_ok_blank_state show ?thesis by (rule Write_ring_ok)
qed

lemma demo_state_simps [simp]:
  "sequence (demo_state cs pr cr) = 1"
  "consumer_sequences (demo_state cs pr cr) = cs"
  "buffer (demo_state cs pr cr) = first_message_ring"
  "producer_running (demo_state cs pr cr) = pr"
  "consumer_running (demo_state cs pr cr) = cr"
  "(demo_state cs pr cr)\<lparr>consumer_sequences := cs'\<rparr> = demo_state cs' pr cr"
  "(demo_state cs pr cr)\<lparr>producer_running := pr'\<rparr> = demo_state cs pr' cr"
  "(demo_state cs pr cr)\<lparr>consumer_running := cr'\<rparr> = demo_state cs pr cr'"
  by (simp_all add: demo_state_def)

lemma first_message_slot:
  "rb_buffer first_message_ring ! 0 = \<lparr>data = c_str ''Message: 0'' @ replicate 52 0, size_b = 11\<rparr>"
  using ring_ok_length [OF ring_ok_blank_state] by (simp add: first_message_ring_def)

lemma consumer_iter_demo:
  assumes "consumer_admit i (next_consumer_id_of i) (demo_state cs pr cr)" and "cs ! i = 0"
  shows "consumer_iter i (next_consumer_id_of i) (replicate 64 0) (demo_state cs pr cr) =
         Inr (demo_state (cs[i := 1]) pr cr,
              Some (c_str ''Message: 0'' @ replicate 53 0, 11))"
  using assms
  by (simp add: consumer_iter_def Read_eq [OF ring_ok_first_message] first_message_slot c_str_def)








section \<open>An execution through the rebase\<close>

text \<open>
  Rounds in which the producer publishes one message and consumers 3, 2, 1 and 0 read
  it bring all five counters from \<open>s\<close> to \<open>s + 1\<close>, as long as \<open>s\<close> is not \<open>ull_max\<close>.
\<close>

lemma running_state_simps [simp]:
  "sequence (running_state s cs rb) = s"
  "consumer_sequences (running_state s cs rb) = cs"
  "buffer (running_state s cs rb) = rb"
  "producer_running (running_state s cs rb)"
  "consumer_running (running_state s cs rb)"
  "(running_state s cs rb)\<lparr>consumer_sequences := cs'\<rparr> = running_state s cs' rb"
  "(running_state s cs rb)\<lparr>sequence := s'\<rparr> = running_state s' cs rb"
  "(running_state s cs rb)\<lparr>buffer := rb'\<rparr> = running_state s cs rb'"
  by (simp_all add: running_state_def)

lemma producer_round:
  assumes r: "reach tr P_while cp (running_state s [s, s, s, s] rb)"
    and w: "slots_written (unat s) rb" and s: "s \<noteq> ull_max"
  shows "\<exists>rb'. slots_written (unat s + 1) rb' \<and>
           reach (tr @ [Published]) P_while cp (running_state (s + 1) [s, s, s, s] rb')"
proof -
  let ?st = "running_state s [s, s, s, s] rb"
  let ?b = "\<lparr>data = c_str (message_of s) @
                   drop (length (c_str (message_of s))) (data (rb_buffer rb ! (unat s mod 256))),
             size_b = of_nat (length (c_str (message_of s)))\<rparr>"
  let ?rb = "rb\<lparr>rb_buffer := (rb_buffer rb)[unat s mod 256 := ?b]\<rparr>"
  from w have ok: "ring_ok (buffer ?st)" by (simp add: slots_written_def)
  have g: "gating ?st 0"
    by (auto simp add: gating_iff numConsumers_def nth_Cons split: nat.splits)
  from s have o: "overflow_rebase ?st = ?st" by (simp add: overflow_rebase_below_max)
  from producer_iter_eq [OF ok g]
  have it: "producer_iter ?st = Inr (running_state (s + 1) [s, s, s, s] ?rb)"
    by (simp add: o)
  from reach_producer_iter [OF r _ it] g
  have r': "reach (tr @ [Published]) P_while cp (running_state (s + 1) [s, s, s, s] ?rb)"
    by simp
  from reach_ring_ok [OF r'] have ok': "ring_ok ?rb" by simp
  have "unat (of_nat (length (c_str (message_of s))) :: u8) \<le> 63"
    using length_message_of [of s] by (simp only: unat_of_nat_u8 length_c_str) simp
  then have sz: "unat (size_b ?b) \<le> 63" by simp
  have "unat (size_b (rb_buffer ?rb ! j)) \<le> 63" if j: "j < 256" "j < unat s + 1" for j
  proof (cases "j = unat s mod 256")
    case True
    with sz ring_ok_length [OF ok] j show ?thesis by simp
  next
    case False
    with j have "j < unat s" by (cases "j = unat s") simp_all
    with w j False show ?thesis by (simp add: slots_written_def)
  qed
  with ok' r' show ?thesis unfolding slots_written_def by blast
qed

lemma consumer_round:
  assumes r: "reach tr pp cp (running_state (s + 1) cs rb)"
    and i: "i < numConsumers" and at: "cp ! i = C_while"
    and s: "s \<noteq> ull_max" and c: "cs ! i = s"
    and up: "i = numConsumers - 1 \<or> cs ! (i + 1) = s + 1"
    and slot: "unat (size_b (rb_buffer rb ! (unat s mod 256))) \<le> 63"
  shows "reach (tr @ [Delivered i]) pp cp (running_state (s + 1) (cs[i := s + 1]) rb)"
proof -
  let ?st = "running_state (s + 1) cs rb"
  from reach_ring_ok [OF r] have ok: "ring_ok rb" by simp
  from s have lt: "s < s + 1"
    using unat_inc_max [OF s] by (simp add: word_less_nat_alt)
  have a: "consumer_admit i (next_consumer_id_of i) ?st"
  proof (cases "i = numConsumers - 1")
    case True
    with i c lt show ?thesis
      by (simp add: consumer_admit_def next_consumer_id_of_last)
  next
    case False
    with up have "cs ! (i + 1) = s + 1" by simp
    with next_consumer_id_of_inner [OF i False] c lt show ?thesis
      by (simp add: consumer_admit_def)
  qed
  let ?b = "rb_buffer rb ! (unat s mod 256)"
  have it: "consumer_iter i (next_consumer_id_of i) (replicate 64 0) ?st =
        Inr (running_state (s + 1) (cs[i := s + 1]) rb,
             Some (take (unat (size_b ?b)) (data ?b) @ drop (unat (size_b ?b)) (replicate 64 0), size_b ?b))"
    using a slot c
    by (simp add: consumer_iter_def Read_eq [OF ok] Let_def unat_ucast_mod_256)
  from reach_consumer_iter [OF r i at _ _ it] show ?thesis
    by (simp add: consumer_loop_cond_def)
qed

lemma lockstep_round:
  assumes r: "reach tr P_while [C_while, C_while, C_while, C_while] (running_state s [s, s, s, s] rb)"
    and w: "slots_written (unat s) rb" and s: "s \<noteq> ull_max"
  shows "\<exists>tr' rb'. slots_written (unat s + 1) rb' \<and>
           reach tr' P_while [C_while, C_while, C_while, C_while]
             (running_state (s + 1) [s + 1, s + 1, s + 1, s + 1] rb')"
proof -
  from producer_round [OF r w s] obtain rb' where
    w': "slots_written (unat s + 1) rb'"
    and r0: "reach (tr @ [Published]) P_while [C_while, C_while, C_while, C_while]
               (running_state (s + 1) [s, s, s, s] rb')"
    by blast
  have "unat s mod 256 < 256" "unat s mod 256 < unat s + 1"
    using mod_less_eq_dividend [of "unat s" 256] by simp_all
  with w' have slot: "unat (size_b (rb_buffer rb' ! (unat s mod 256))) \<le> 63"
    unfolding slots_written_def by blast
  from consumer_round [OF r0, of 3, OF _ _ s _ _ slot]
  have r3: "reach (tr @ [Published] @ [Delivered 3]) P_while [C_while, C_while, C_while, C_while]
              (running_state (s + 1) [s, s, s, s + 1] rb')"
    by (simp add: numConsumers_def)
  from consumer_round [OF r3, of 2, OF _ _ s _ _ slot]
  have r2: "reach (tr @ [Published] @ [Delivered 3] @ [Delivered 2]) P_while
              [C_while, C_while, C_while, C_while]
              (running_state (s + 1) [s, s, s + 1, s + 1] rb')"
    by (simp add: numConsumers_def)
  from consumer_round [OF r2, of 1, OF _ _ s _ _ slot]
  have r1: "reach (tr @ [Published] @ [Delivered 3] @ [Delivered 2] @ [Delivered 1]) P_while
              [C_while, C_while, C_while, C_while]
              (running_state (s + 1) [s, s + 1, s + 1, s + 1] rb')"
    by (simp add: numConsumers_def)
  from consumer_round [OF r1, of 0, OF _ _ s _ _ slot]
  have "reach (tr @ [Published] @ [Delivered 3] @ [Delivered 2] @ [Delivered 1] @ [Delivered 0]) P_while
              [C_while, C_while, C_while, C_while]
              (running_state (s + 1) [s + 1, s + 1, s + 1, s + 1] rb')"
    by (simp add: numConsumers_def)
  with w' show ?thesis by blast
qed

lemma blank_state_running: "blank_state = running_state 0 [0, 0, 0, 0] (buffer blank_state)"
  by (simp add: blank_state_def initial_def running_state_def numConsumers_4)

lemma lockstep:
  "n < 18446744073709551616 \<Longrightarrow>
   \<exists>tr rb. slots_written n rb \<and>
     reach tr P_while [C_while, C_while, C_while, C_while]
       (running_state (of_nat n) [of_nat n, of_nat n, of_nat n, of_nat n] rb)"
proof (induction n)
  case 0
  have "slots_written 0 (buffer blank_state)"
    by (simp add: slots_written_def ring_ok_blank_state)
  moreover from reach_blank
  have "reach [] P_while [C_while, C_while, C_while, C_while]
          (running_state 0 [0, 0, 0, 0] (buffer blank_state))"
    by (simp add: blank_state_running [symmetric])
  ultimately show ?case by (simp del: running_state_simps) blast
next
  case (Suc n)
  then obtain tr rb where w: "slots_written n rb"
    and r: "reach tr P_while [C_while, C_while, C_while, C_while]
              (running_state (of_nat n) [of_nat n, of_nat n, of_nat n, of_nat n] rb)"
    by auto
  from Suc(2) have u: "unat (of_nat n :: u64) = n"
    by (simp add: unat_of_nat)
  with Suc(2) have m: "(of_nat n :: u64) \<noteq> ull_max"
    using unat_ull_max by auto
  from lockstep_round [OF r _ m] w u show ?case
    by (simp add: add.commute)
qed

lemma reach_all_at_max:
  "\<exists>tr rb. slots_written 18446744073709551615 rb \<and>
     reach tr P_while [C_while, C_while, C_while, C_while]
       (running_state ull_max [ull_max, ull_max, ull_max, ull_max] rb)"
proof -
  have "(of_nat 18446744073709551615 :: u64) = ull_max" by (simp add: ull_max_def)
  with lockstep [of 18446744073709551615] show ?thesis by simp
qed

text \<open>
  With all counters at \<open>ull_max\<close> the producer passes the gate and enters the block of
  lines 81-90. After line 87 has run for consumer 0, that consumer passes its test
  (lines 102-107), reads slot 255 and advances; then the block finishes.
\<close>

lemma ull_max_rebased: "ull_max - (ull_max div ucast size_glob - 2) * ucast size_glob = 767"
  by (simp add: rebase_amount) (simp add: ull_max_def)

lemma reach_rebase_started:
  "\<exists>tr rb. slots_written 18446744073709551615 rb \<and>
     reach tr (P_rebase 1) [C_while, C_while, C_while, C_while]
       (running_state ull_max [767, ull_max, ull_max, ull_max] rb)"
proof -
  from reach_all_at_max obtain tr rb where w: "slots_written 18446744073709551615 rb"
    and r: "reach tr P_while [C_while, C_while, C_while, C_while]
              (running_state ull_max [ull_max, ull_max, ull_max, ull_max] rb)"
    by blast
  let ?st = "running_state ull_max [ull_max, ull_max, ull_max, ull_max] rb"
  have g: "gating ?st 0"
    by (auto simp add: gating_iff numConsumers_def nth_Cons split: nat.splits)
  from reach_gating [OF producer_while_enter [OF r]] g
  have "reach tr P_epoch [C_while, C_while, C_while, C_while] ?st" by simp
  from producer_rebase_consumer [OF producer_epoch_max [OF this] _ refl]
  have "reach tr (P_rebase 1) [C_while, C_while, C_while, C_while]
          (running_state ull_max [767, ull_max, ull_max, ull_max] rb)"
    by (simp add: numConsumers_def ull_max_rebased eval_nat_numeral)
  with w show ?thesis by blast
qed

lemma reach_rebase_overtaken:
  "\<exists>tr rb. reach tr (P_rebase 1) [C_while, C_while, C_while, C_while]
       (running_state ull_max [768, ull_max, ull_max, ull_max] rb)"
proof -
  from reach_rebase_started obtain tr rb where w: "slots_written 18446744073709551615 rb"
    and r: "reach tr (P_rebase 1) [C_while, C_while, C_while, C_while]
              (running_state ull_max [767, ull_max, ull_max, ull_max] rb)"
    by blast
  let ?st = "running_state ull_max [767, ull_max, ull_max, ull_max] rb"
  from reach_ring_ok [OF r] have ok: "ring_ok rb" by simp
  have n: "next_consumer_id_of 0 = 1"
    by (simp add: next_consumer_id_of_def numConsumers_def)
  have a: "consumer_admit 0 1 ?st"
    by (simp add: consumer_admit_def ull_max_def)
  from w have slot: "unat (size_b (rb_buffer rb ! 255)) \<le> 63"
    by (simp add: slots_written_def)
  let ?b = "rb_buffer rb ! 255"
  have it: "consumer_iter 0 (next_consumer_id_of 0) (replicate 64 0) ?st =
        Inr (running_state ull_max [768, ull_max, ull_max, ull_max] rb,
             Some (take (unat (size_b ?b)) (data ?b) @ drop (unat (size_b ?b)) (replicate 64 0), size_b ?b))"
    using a slot
    by (simp add: n consumer_iter_def Read_eq [OF ok] Let_def unat_ucast_mod_256)
  from reach_consumer_iter [OF r _ _ _ _ it] show ?thesis
    by (auto simp add: consumer_loop_cond_def numConsumers_def)
qed

lemma reach_rebase_finished:
  "\<exists>tr rb. reach tr P_write [C_while, C_while, C_while, C_while]
       (running_state 767 [768, 767, 767, 767] rb)"
proof -
  from reach_rebase_overtaken obtain tr rb where
    r: "reach tr (P_rebase 1) [C_while, C_while, C_while, C_while]
              (running_state ull_max [768, ull_max, ull_max, ull_max] rb)"
    by blast
  from producer_rebase_consumer [OF r _ refl]
  have r2: "reach tr (P_rebase 2) [C_while, C_while, C_while, C_while]
              (running_state ull_max [768, 767, ull_max, ull_max] rb)"
    by (simp add: numConsumers_def ull_max_rebased eval_nat_numeral)
  from producer_rebase_consumer [OF r2 _ refl]
  have r3: "reach tr (P_rebase 3) [C_while, C_while, C_while, C_while]
              (running_state ull_max [768, 767, 767, ull_max] rb)"
    by (simp add: numConsumers_def ull_max_rebased eval_nat_numeral)
  from producer_rebase_consumer [OF r3 _ refl]
  have r4: "reach tr (P_rebase 4) [C_while, C_while, C_while, C_while]
              (running_state ull_max [768, 767, 767, 767] rb)"
    by (simp add: numConsumers_def ull_max_rebased eval_nat_numeral)
  from producer_rebase_own [OF r4 _ refl]
  have "reach tr P_write [C_while, C_while, C_while, C_while]
              (running_state 767 [768, 767, 767, 767] rb)"
    by (simp add: numConsumers_def ull_max_rebased eval_nat_numeral)
  then show ?thesis by blast
qed

lemma reach_rebase_published:
  "\<exists>tr rb. reach tr P_while [C_while, C_while, C_while, C_while]
       (running_state 768 [768, 767, 767, 767] rb)"
proof -
  from reach_rebase_finished obtain tr rb where
    "reach tr P_write [C_while, C_while, C_while, C_while]
       (running_state 767 [768, 767, 767, 767] rb)"
    by blast
  from reach_write_publish [OF this] obtain rb' where
    "reach (tr @ [Published]) P_while [C_while, C_while, C_while, C_while]
       (running_state 768 [768, 767, 767, 767] rb')"
    by auto
  then show ?thesis by blast
qed

section \<open>The safety invariant (claim C1)\<close>

text \<open>
  C1 says that in every state that an execution reaches from all counters 0 the
  producer is at most one buffer ahead of the slowest consumer,
  \<open>sequence - Min (consumer_sequences) \<le> 256\<close>. The gate of lines 67-76 and the test of
  lines 102-107 keep this bound until the producer's counter wraps (lemma
  \<open>bound_before_wrap\<close>). The block of lines 81-90 breaks it: the five subtractions of
  lines 87 and 89 are separate steps, and after the first of them an execution is in a
  state where the producer's counter is still \<open>ull_max\<close> and consumer 0's is 767. There
  the difference is \<open>2^64 - 768\<close>, and consumer 0 passes the test of lines 102-107, so
  that it goes on to read slot 255, which the producer has not yet written in this
  iteration.
\<close>

theorem rebase_breaks_bound:
  "\<exists>tr cp st.
     reach tr (P_rebase 1) cp st \<and>
     sequence st = ull_max \<and> consumer_sequences st = [767, ull_max, ull_max, ull_max] \<and>
     Min (set (consumer_sequences st)) = 767 \<and>
     sequence st - Min (set (consumer_sequences st)) = 18446744073709550848 \<and>
     \<not> sequence st - Min (set (consumer_sequences st)) \<le> ucast size_glob \<and>
     consumer_admit 0 (next_consumer_id_of 0) st"
proof -
  from reach_rebase_started obtain tr rb where
    r: "reach tr (P_rebase 1) [C_while, C_while, C_while, C_while]
              (running_state ull_max [767, ull_max, ull_max, ull_max] rb)"
    by blast
  let ?st = "running_state ull_max [767, ull_max, ull_max, ull_max] rb"
  have m: "Min (set (consumer_sequences ?st)) = 767"
    by (simp add: ull_max_def)
  have d: "sequence ?st - 767 = 18446744073709550848"
    by (simp add: ull_max_def)
  have n: "\<not> (18446744073709550848 :: u64) \<le> ucast size_glob"
    by (simp add: ucast_size_glob)
  have a: "consumer_admit 0 (next_consumer_id_of 0) ?st"
    by (simp add: consumer_admit_def next_consumer_id_of_def numConsumers_def ull_max_def)
  from r m d n a show ?thesis
    by (intro exI [of _ tr] exI [of _ "[C_while, C_while, C_while, C_while]"] exI [of _ ?st])
       (simp only: running_state_simps simp_thms)
qed

section \<open>Producer admission (claim C2)\<close>

text \<open>
  C2. The gate of lines 67-80 lets the iteration continue exactly when, for each of
  the four consumers, the (wrapping) difference \<open>sequence - consumer_sequences[i]\<close> is
  below \<open>size_glob = 256\<close>. An iteration that is not admitted returns the state
  unchanged: no write, no counter changed. An admitted iteration on a ring of the
  program's shape does write: the slot of the (possibly rebased) sequence then starts
  with the bytes of the message, and the producer's counter is that sequence plus one,
  which differs from what it was.
\<close>

theorem producer_admission:
  "(gating st 0 \<longleftrightarrow>
      (\<forall>i < numConsumers. sequence st - consumer_sequences st ! i < ucast size_glob)) \<and>
   (\<not> gating st 0 \<longrightarrow> producer_iter st = Inr st) \<and>
   (gating st 0 \<longrightarrow> ring_ok (buffer st) \<longrightarrow>
      (\<exists>st'. producer_iter st = Inr st' \<and>
         sequence st' = sequence (overflow_rebase st) + 1 \<and> sequence st' \<noteq> sequence st \<and>
         take (length (c_str (message_of (sequence (overflow_rebase st)))))
           (data (rb_buffer (buffer st') ! unat (ucast (sequence (overflow_rebase st)) AND rb_l (buffer st)))) =
           c_str (message_of (sequence (overflow_rebase st))))) \<and>
   numConsumers = 4 \<and> (ucast size_glob :: u64) = 256"
proof (intro conjI impI)
  show "gating st 0 \<longleftrightarrow>
      (\<forall>i < numConsumers. sequence st - consumer_sequences st ! i < ucast size_glob)"
    by (simp add: gating_iff ucast_size_glob)
  show "producer_iter st = Inr st" if "\<not> gating st 0"
    using that by (rule producer_iter_spin)
  show "numConsumers = 4" by (rule numConsumers_def)
  show "(ucast size_glob :: u64) = 256" by (rule ucast_size_glob)
next
  assume g: "gating st 0" and ok: "ring_ok (buffer st)"
  have "unat (ucast (sequence (overflow_rebase st)) AND rb_l (buffer st)) = unat (sequence (overflow_rebase st)) mod 256"
    by (simp add: ring_ok_l [OF ok] unat_ucast_and_255)
  then show "\<exists>st'. producer_iter st = Inr st' \<and>
         sequence st' = sequence (overflow_rebase st) + 1 \<and> sequence st' \<noteq> sequence st \<and>
         take (length (c_str (message_of (sequence (overflow_rebase st)))))
           (data (rb_buffer (buffer st') ! unat (ucast (sequence (overflow_rebase st)) AND rb_l (buffer st)))) =
           c_str (message_of (sequence (overflow_rebase st)))"
    using ring_ok_length [OF ok] sequence_changes [of st]
    by (simp add: producer_iter_eq [OF ok g])
qed

theorem producer_admission_witness:
  "gating blank_state 0 \<and> ring_ok (buffer blank_state) \<and>
   sequence blank_state - consumer_sequences blank_state ! 3 < ucast size_glob \<and>
   (\<exists>st'. producer_iter blank_state = Inr st' \<and> sequence st' = 1) \<and>
   \<not> gating (blank_state\<lparr>sequence := 256\<rparr>) 0 \<and>
   producer_iter (blank_state\<lparr>sequence := 256\<rparr>) = Inr (blank_state\<lparr>sequence := 256\<rparr>)"
proof -
  have g: "gating blank_state 0"
    by (simp add: gating_iff blank_state_def initial_def numConsumers_def)
  have s: "sequence (overflow_rebase blank_state) = 0"
    by (simp add: overflow_rebase_def blank_state_def initial_def ull_max_def)
  have n: "\<not> gating (blank_state\<lparr>sequence := 256\<rparr>) 0"
    by (auto simp add: gating_iff blank_state_def initial_def numConsumers_def intro: exI [of _ 0])
  from producer_admission [of blank_state] g
  have "\<forall>i < numConsumers.
          sequence blank_state - consumer_sequences blank_state ! i < ucast size_glob"
    by blast
  then have d: "sequence blank_state - consumer_sequences blank_state ! 3 < ucast size_glob"
    by (simp add: numConsumers_def)
  from producer_admission [of blank_state] producer_admission [of "blank_state\<lparr>sequence := 256\<rparr>"]
    g n ring_ok_blank_state s d
  show ?thesis by auto
qed

section \<open>Consumer admission (claim C3)\<close>

text \<open>
  C3. For consumer \<open>i\<close> as \<^verbatim>\<open>main\<close> starts it (upstream \<open>i + 1\<close>, none for the last one),
  the condition of lines 102-107 holds exactly when its counter is below the
  producer's and it either is the last consumer or its counter is below that of
  consumer \<open>i + 1\<close>. When the condition is false the iteration returns the state
  unchanged and reads nothing. When it is true the iteration is the call of \<open>Read\<close>
  on the slot of the consumer's counter, followed by the increment of that counter
  alone.
\<close>

theorem consumer_admission:
  assumes i: "i < numConsumers"
  shows "(next_consumer_id_of i = - 1 \<longleftrightarrow> i = numConsumers - 1) \<and>
         (consumer_admit i (next_consumer_id_of i) st \<longleftrightarrow>
            consumer_sequences st ! i < sequence st \<and>
            (i = numConsumers - 1 \<or> consumer_sequences st ! i < consumer_sequences st ! (i + 1))) \<and>
         (\<not> consumer_admit i (next_consumer_id_of i) st \<longrightarrow>
            consumer_iter i (next_consumer_id_of i) local_data st = Inr (st, None)) \<and>
         (consumer_admit i (next_consumer_id_of i) st \<longrightarrow>
            consumer_iter i (next_consumer_id_of i) local_data st =
              (case Read (buffer st) (ucast (consumer_sequences st ! i)) local_data of
                 Inl e \<Rightarrow> Inl e
               | Inr r \<Rightarrow>
                   Inr (st\<lparr>consumer_sequences :=
                             (consumer_sequences st)[i := consumer_sequences st ! i + 1]\<rparr>,
                        Some r)))"
proof (intro conjI impI)
  show "next_consumer_id_of i = - 1 \<longleftrightarrow> i = numConsumers - 1"
    using i by (rule next_consumer_id_of_last)
  show "consumer_admit i (next_consumer_id_of i) st \<longleftrightarrow>
            consumer_sequences st ! i < sequence st \<and>
            (i = numConsumers - 1 \<or> consumer_sequences st ! i < consumer_sequences st ! (i + 1))"
  proof (cases "i = numConsumers - 1")
    case True
    with i show ?thesis by (simp add: consumer_admit_def next_consumer_id_of_def)
  next
    case False
    with i have "next_consumer_id_of i \<noteq> - 1" "nat (next_consumer_id_of i) = i + 1"
      by (simp_all add: next_consumer_id_of_last next_consumer_id_of_inner)
    with False show ?thesis by (simp add: consumer_admit_def)
  qed
next
  assume "\<not> consumer_admit i (next_consumer_id_of i) st"
  then show "consumer_iter i (next_consumer_id_of i) local_data st = Inr (st, None)"
    by (rule consumer_iter_spin)
next
  assume "consumer_admit i (next_consumer_id_of i) st"
  then show "consumer_iter i (next_consumer_id_of i) local_data st =
              (case Read (buffer st) (ucast (consumer_sequences st ! i)) local_data of
                 Inl e \<Rightarrow> Inl e
               | Inr r \<Rightarrow>
                   Inr (st\<lparr>consumer_sequences :=
                             (consumer_sequences st)[i := consumer_sequences st ! i + 1]\<rparr>,
                        Some r))"
    by (simp add: consumer_iter_def)
qed

theorem consumer_admission_witness:
  "consumer_admit 3 (next_consumer_id_of 3) (demo_state [0, 0, 0, 0] True True) \<and>
   \<not> consumer_admit 2 (next_consumer_id_of 2) (demo_state [0, 0, 0, 0] True True) \<and>
   consumer_iter 2 (next_consumer_id_of 2) (replicate 64 0) (demo_state [0, 0, 0, 0] True True) =
     Inr (demo_state [0, 0, 0, 0] True True, None) \<and>
   consumer_iter 3 (next_consumer_id_of 3) (replicate 64 0) (demo_state [0, 0, 0, 0] True True) =
     Inr (demo_state [0, 0, 0, 1] True True, Some (c_str ''Message: 0'' @ replicate 53 0, 11))"
proof -
  have a3: "consumer_admit 3 (next_consumer_id_of 3) (demo_state [0, 0, 0, 0] True True)"
    using consumer_admission [of 3 "demo_state [0, 0, 0, 0] True True" "replicate 64 0",
        THEN conjunct2]
    by (simp add: numConsumers_def)
  have a2: "\<not> consumer_admit 2 (next_consumer_id_of 2) (demo_state [0, 0, 0, 0] True True)"
    using consumer_admission [of 2 "demo_state [0, 0, 0, 0] True True" "replicate 64 0",
        THEN conjunct2]
    by (simp add: numConsumers_def)
  from a2 consumer_admission [of 2 "demo_state [0, 0, 0, 0] True True" "replicate 64 0",
      THEN conjunct2]
  have "consumer_iter 2 (next_consumer_id_of 2) (replicate 64 0) (demo_state [0, 0, 0, 0] True True) =
     Inr (demo_state [0, 0, 0, 0] True True, None)"
    by (simp add: numConsumers_def)
  with a2 a3 consumer_iter_demo [OF a3] show ?thesis by simp
qed

section \<open>The chain of consumers (claim C4)\<close>

text \<open>
  C4 says that in every state that an execution reaches each consumer that has an
  upstream consumer (consumer \<open>i + 1\<close> for consumer \<open>i\<close>) has a counter that is not above
  the upstream's. The test of lines 102-107 keeps this order until the producer's
  counter wraps (lemma \<open>chain_before_wrap\<close>). The block of lines 81-90 breaks it: when
  consumer 0 reads and advances between the subtraction of line 87 for its own counter
  and the one for consumer 1's, the block ends with consumer 0's counter at 768 and
  consumer 1's, like the producer's, at 767. After the producer has written and
  published, every thread is at the head of its loop and consumer 0 is still ahead of
  consumer 1.
\<close>

theorem rebase_breaks_chain:
  "\<exists>tr st.
     reach tr P_while [C_while, C_while, C_while, C_while] st \<and>
     sequence st = 768 \<and> consumer_sequences st = [768, 767, 767, 767] \<and>
     next_consumer_id_of 0 = 1 \<and>
     \<not> consumer_sequences st ! 0 \<le> consumer_sequences st ! nat (next_consumer_id_of 0)"
proof -
  from reach_rebase_published obtain tr rb where
    r: "reach tr P_while [C_while, C_while, C_while, C_while]
              (running_state 768 [768, 767, 767, 767] rb)"
    by blast
  have n: "next_consumer_id_of 0 = 1"
    by (simp add: next_consumer_id_of_def numConsumers_def)
  from r show ?thesis
    by (intro exI [of _ tr] exI [of _ "running_state 768 [768, 767, 767, 767] rb"])
       (simp add: n)
qed

section \<open>The overflow rebase (claim C5)\<close>

text \<open>
  C5. The block of lines 81-90 changes the state exactly when the producer's counter
  is \<open>ull_max = 2^64 - 1\<close>. It then subtracts \<open>c * size_glob\<close>, with
  \<open>c = ull_max div size_glob - 2\<close>, from the producer's counter and from every
  consumer's. This keeps every counter's value modulo 256 and every pairwise
  difference of counters as 64-bit words. If moreover the state satisfies the safety
  invariant (each consumer within 256 of the producer), no subtraction wraps and every
  pairwise difference of the counters' values as integers is kept as well. (The
  block is reached only in an iteration that passed the gate, see C2.)
\<close>

theorem overflow_rebase_preserves:
  "(overflow_rebase st \<noteq> st \<longleftrightarrow> sequence st = ull_max) \<and>
   unat ull_max = 2 ^ 64 - 1 \<and>
   (sequence st = ull_max \<longrightarrow> length (consumer_sequences st) = numConsumers \<longrightarrow>
      counters (overflow_rebase st) =
        map (\<lambda>c. c - (ull_max div ucast size_glob - 2) * ucast size_glob) (counters st) \<and>
      (\<forall>a < length (counters st).
         unat (counters (overflow_rebase st) ! a) mod unat size_glob =
           unat (counters st ! a) mod unat size_glob) \<and>
      (\<forall>a < length (counters st). \<forall>b < length (counters st).
         counters (overflow_rebase st) ! a - counters (overflow_rebase st) ! b =
           counters st ! a - counters st ! b) \<and>
      ((\<forall>i < numConsumers. sequence st - consumer_sequences st ! i \<le> ucast size_glob) \<longrightarrow>
         (\<forall>a < length (counters st). \<forall>b < length (counters st).
            uint (counters (overflow_rebase st) ! a) - uint (counters (overflow_rebase st) ! b) =
              uint (counters st ! a) - uint (counters st ! b))))"
proof (intro conjI impI)
  show "overflow_rebase st \<noteq> st \<longleftrightarrow> sequence st = ull_max"
  proof
    assume "overflow_rebase st \<noteq> st"
    then show "sequence st = ull_max"
      by (rule contrapos_np) (simp add: overflow_rebase_below_max)
  next
    assume m: "sequence st = ull_max"
    then have "sequence (overflow_rebase st) = 767" by (simp add: overflow_rebase_at_max)
    with m show "overflow_rebase st \<noteq> st" by (auto simp add: ull_max_def)
  qed
  show "unat ull_max = 2 ^ 64 - 1" by (simp add: unat_ull_max)
next
  assume m: "sequence st = ull_max" and len: "length (consumer_sequences st) = numConsumers"
  note r = counters_rebased [OF m len]
  show "counters (overflow_rebase st) =
        map (\<lambda>c. c - (ull_max div ucast size_glob - 2) * ucast size_glob) (counters st)"
    by (simp add: r rebase_amount)
  show "\<forall>a < length (counters st).
         unat (counters (overflow_rebase st) ! a) mod unat size_glob =
           unat (counters st ! a) mod unat size_glob"
    by (simp add: r unat_size_glob unat_plus_768_mod)
  show "\<forall>a < length (counters st). \<forall>b < length (counters st).
         counters (overflow_rebase st) ! a - counters (overflow_rebase st) ! b =
           counters st ! a - counters st ! b"
    by (simp add: r)
next
  assume m: "sequence st = ull_max" and len: "length (consumer_sequences st) = numConsumers"
    and safe: "\<forall>i < numConsumers. sequence st - consumer_sequences st ! i \<le> ucast size_glob"
  note r = counters_rebased [OF m len]
  have big: "18446744073709550848 \<le> unat (counters st ! a)" if a: "a < length (counters st)" for a
  proof (cases a)
    case 0
    with m show ?thesis by (simp add: counters_def unat_ull_max)
  next
    case (Suc i)
    with a len have i: "i < numConsumers" by (simp add: counters_def)
    with safe have "sequence st - consumer_sequences st ! i \<le> 256"
      by (simp add: ucast_size_glob)
    then have "18446744073709551359 \<le> unat (consumer_sequences st ! i)"
      using unat_lt [of "consumer_sequences st ! i"]
      by (simp add: m word_le_nat_alt unat_minus_u64 unat_ull_max split: if_splits)
    with Suc show ?thesis by (simp add: counters_def)
  qed
  have u: "uint (counters (overflow_rebase st) ! a) = uint (counters st ! a) - 18446744073709550848"
    if a: "a < length (counters st)" for a
  proof -
    from big [OF a] have "unat (counters st ! a + 768) = unat (counters st ! a) - 18446744073709550848"
      by (rule unat_rebase)
    with a have "unat (counters (overflow_rebase st) ! a) = unat (counters st ! a) - 18446744073709550848"
      by (simp add: r)
    with big [OF a] have "int (unat (counters (overflow_rebase st) ! a)) = int (unat (counters st ! a)) - 18446744073709550848"
      by linarith
    then show ?thesis by (simp only: uint_nat)
  qed
  show "\<forall>a < length (counters st). \<forall>b < length (counters st).
            uint (counters (overflow_rebase st) ! a) - uint (counters (overflow_rebase st) ! b) =
              uint (counters st ! a) - uint (counters st ! b)"
    by (simp add: u)
qed

theorem overflow_rebase_preserves_witness:
  "sequence wrap_state = ull_max \<and> overflow_rebase wrap_state \<noteq> wrap_state \<and>
   counters (overflow_rebase wrap_state) = [767, 512, 567, 766, 767] \<and>
   uint (counters (overflow_rebase wrap_state) ! 0) - uint (counters (overflow_rebase wrap_state) ! 1) =
     uint (counters wrap_state ! 0) - uint (counters wrap_state ! 1) \<and>
   unat (counters (overflow_rebase wrap_state) ! 1) mod unat size_glob =
     unat (counters wrap_state ! 1) mod unat size_glob"
proof -
  have m: "sequence wrap_state = ull_max" by (simp add: wrap_state_def)
  have len: "length (consumer_sequences wrap_state) = numConsumers"
    by (simp add: wrap_state_def numConsumers_def)
  have safe: "\<forall>i < numConsumers. sequence wrap_state - consumer_sequences wrap_state ! i \<le> ucast size_glob"
  proof (intro allI impI)
    fix i assume "i < numConsumers"
    then have "i = 0 \<or> i = 1 \<or> i = 2 \<or> i = 3"
      unfolding numConsumers_def by arith
    then show "sequence wrap_state - consumer_sequences wrap_state ! i \<le> ucast size_glob"
      by (elim disjE) (simp_all add: wrap_state_def ucast_size_glob)
  qed
  have l5: "length (counters wrap_state) = 5"
    by (simp add: counters_def wrap_state_def)
  from overflow_rebase_preserves [of wrap_state] m len safe
  have 1: "overflow_rebase wrap_state \<noteq> wrap_state"
    and 2: "counters (overflow_rebase wrap_state) =
        map (\<lambda>c. c - (ull_max div ucast size_glob - 2) * ucast size_glob) (counters wrap_state)"
    and 3: "\<forall>a < length (counters wrap_state).
         unat (counters (overflow_rebase wrap_state) ! a) mod unat size_glob =
           unat (counters wrap_state ! a) mod unat size_glob"
    and 4: "\<forall>a < length (counters wrap_state). \<forall>b < length (counters wrap_state).
            uint (counters (overflow_rebase wrap_state) ! a) - uint (counters (overflow_rebase wrap_state) ! b) =
              uint (counters wrap_state ! a) - uint (counters wrap_state ! b)"
    by blast+
  have "counters (overflow_rebase wrap_state) = [767, 512, 567, 766, 767]"
    unfolding 2 by (simp add: counters_def wrap_state_def rebase_amount) (simp add: ull_max_def)
  with m 1 3 [rule_format, of 1] 4 [rule_format, of 0 1] show ?thesis
    by (simp only: l5) simp
qed

section \<open>Drain on stop (claim C7)\<close>



section \<open>Round trip through the ring (claim C8)\<close>

text \<open>
  C8. On a ring of the program's shape, for every block index \<open>s\<close>, payload \<open>p\<close> and
  length \<open>len\<close> of at most 63 (with \<open>p\<close> holding at least \<open>len\<close> bytes), \<open>Write\<close>
  never refuses: it replaces the length of slot \<open>s AND l = s mod 256\<close> by \<open>len\<close> and
  the first \<open>len\<close> bytes of its payload by those of \<open>p\<close>, whatever the slot held and
  whatever \<open>s\<close> is. After any further successful writes \<open>ws\<close> to indices that are not
  congruent to \<open>s\<close> modulo 256, \<open>Read\<close> at any index \<open>s'\<close> congruent to \<open>s\<close> (into an
  array \<open>dest\<close> of at least \<open>len\<close> bytes) returns the length \<open>len\<close> and the bytes
  \<open>p[0..len)\<close>. \<open>Write\<close> checks nothing: a length above 63 is not refused either, it
  reaches \<open>memcpy\<close>, which then runs past the payload array.
\<close>

theorem Write_Read_round_trip:
  assumes ok: "ring_ok rb"
    and len: "unat len \<le> 63" "unat len \<le> length p" "unat len \<le> length dest"
    and cong: "unat s' mod unat size_glob = unat s mod unat size_glob"
    and others: "\<forall>w \<in> set ws. unat (fst w) mod unat size_glob \<noteq> unat s mod unat size_glob"
  shows "(\<exists>rb1. Write rb s p len = Inr rb1 \<and>
           rb_buffer rb1 = (rb_buffer rb)[unat (s AND rb_l rb) :=
              \<lparr>data = take (unat len) p @ drop (unat len) (data (rb_buffer rb ! unat (s AND rb_l rb))),
               size_b = len\<rparr>] \<and>
           unat (s AND rb_l rb) = unat s mod unat size_glob \<and>
           (\<forall>rb2. Write_all rb1 ws = Inr rb2 \<longrightarrow>
              (\<exists>d. Read rb2 s' dest = Inr (d, len) \<and> take (unat len) d = take (unat len) p))) \<and>
         (\<forall>big. 63 < unat big \<longrightarrow> Write rb s p big = Inl MemcpyOutOfBounds)"
proof -
  let ?j = "unat s mod 256"
  let ?b = "\<lparr>data = take (unat len) p @ drop (unat len) (data (rb_buffer rb ! ?j)), size_b = len\<rparr>"
  let ?rb1 = "rb\<lparr>rb_buffer := (rb_buffer rb)[?j := ?b]\<rparr>"
  have w: "Write rb s p len = Inr ?rb1"
    using ok len(1,2) by (rule Write_ok)
  have idx: "unat (s AND rb_l rb) = ?j"
    by (simp add: ring_ok_l [OF ok] unat_and_255)
  have ok1: "ring_ok ?rb1" using ok w by (rule Write_ring_ok)
  have slot1: "rb_buffer ?rb1 ! ?j = ?b"
    using ring_ok_length [OF ok] by simp
  have rd: "\<exists>d. Read rb2 s' dest = Inr (d, len) \<and> take (unat len) d = take (unat len) p"
    if w2: "Write_all ?rb1 ws = Inr rb2" for rb2
  proof -
    from others have "\<forall>w \<in> set ws. unat (fst w) mod 256 \<noteq> ?j"
      by (simp add: unat_size_glob)
    from Write_all_other_slot [OF ok1 w2 this]
    have ok2: "ring_ok rb2" and "rb_buffer rb2 ! ?j = rb_buffer ?rb1 ! ?j"
      by simp_all
    with slot1 have slot2: "rb_buffer rb2 ! ?j = ?b" by (simp only:)
    from cong have j': "unat s' mod 256 = ?j" by (simp add: unat_size_glob)
    have "Read rb2 s' dest = Inr (take (unat len) (data ?b) @ drop (unat len) dest, len)"
      using len by (simp add: Read_eq [OF ok2] j' slot2 Let_def)
    moreover have "take (unat len) (take (unat len) (data ?b) @ drop (unat len) dest) = take (unat len) p"
      using len(2) ring_ok_block [OF ok, of ?j] len(1) by simp
    ultimately show ?thesis by blast
  qed
  have "\<exists>rb1. Write rb s p len = Inr rb1 \<and>
           rb_buffer rb1 = (rb_buffer rb)[unat (s AND rb_l rb) :=
              \<lparr>data = take (unat len) p @ drop (unat len) (data (rb_buffer rb ! unat (s AND rb_l rb))),
               size_b = len\<rparr>] \<and>
           unat (s AND rb_l rb) = unat s mod unat size_glob \<and>
           (\<forall>rb2. Write_all rb1 ws = Inr rb2 \<longrightarrow>
              (\<exists>d. Read rb2 s' dest = Inr (d, len) \<and> take (unat len) d = take (unat len) p))"
    using w rd by (simp add: idx unat_size_glob)
  moreover have "\<forall>big. 63 < unat big \<longrightarrow> Write rb s p big = Inl MemcpyOutOfBounds"
    using ok by (simp add: Write_overrun)
  ultimately show ?thesis by (rule conjI)
qed

theorem Write_Read_round_trip_witness:
  "ring_ok blank_ring \<and>
   (\<exists>rb1 rb2 d. Write blank_ring 5 [1, 2, 3] 3 = Inr rb1 \<and>
      Write_all rb1 [(6, [9], 1)] = Inr rb2 \<and>
      Read rb2 261 (replicate 64 0) = Inr (d, 3) \<and> take 3 d = [1, 2, 3])"
proof -
  have h: "\<forall>w \<in> set [(6 :: u32, [9 :: u8], 1 :: u8)].
             unat (fst w) mod unat size_glob \<noteq> unat (5 :: u32) mod unat size_glob"
    by (simp add: unat_size_glob)
  from Write_Read_round_trip [OF ring_ok_blank, of 3 "[1, 2, 3]" "replicate 64 0" 261 5, OF _ _ _ _ h]
  obtain rb1 where w: "Write blank_ring 5 [1, 2, 3] 3 = Inr rb1"
    and r: "\<forall>rb2. Write_all rb1 [(6, [9], 1)] = Inr rb2 \<longrightarrow>
              (\<exists>d. Read rb2 261 (replicate 64 0) = Inr (d, 3) \<and> take (unat (3 :: u8)) d = take (unat (3 :: u8)) [1, 2, 3])"
    by (auto simp add: unat_size_glob)
  from ring_ok_blank w have ok1: "ring_ok rb1" by (rule Write_ring_ok)
  have "\<exists>rb2. Write_all rb1 [(6, [9], 1)] = Inr rb2"
    by (simp add: Write_ok [OF ok1])
  with w r ring_ok_blank show ?thesis by fastforce
qed

section \<open>The producer's payload fits (claim C9)\<close>

text \<open>
  C9. For every 64-bit sequence value the bytes that the producer passes to \<open>Write\<close>
  (\<^verbatim>\<open>"Message: "\<close>, the decimal digits, the NUL) are at most 30, and the length survives
  the conversion to \<^verbatim>\<open>uint8_t\<close>. On a ring of the program's shape an iteration of the
  producer therefore never runs into the out-of-bounds copy, and the slot it writes
  gets a length of at most 30, within the 63 bytes of the payload. In particular this
  holds in every state that an execution reaches, where the \<^verbatim>\<open>Write\<close> of line 92 itself
  succeeds.
\<close>

theorem producer_payload_fits:
  "length (c_str (message_of s)) \<le> 30 \<and>
   unat (of_nat (length (message_of s) + 1) :: u8) = length (c_str (message_of s)) \<and>
   (ring_ok (buffer st) \<longrightarrow>
      (\<exists>st'. producer_iter st = Inr st' \<and>
         (gating st 0 \<longrightarrow>
            unat (size_b (rb_buffer (buffer st') ! (unat (sequence (overflow_rebase st)) mod 256)))
              \<le> 30))) \<and>
   (reach tr pp cp st \<longrightarrow>
      ring_ok (buffer st) \<and> producer_iter st \<noteq> Inl MemcpyOutOfBounds \<and>
      (\<exists>rb. Write (buffer st) (ucast (sequence st)) (c_str (message_of (sequence st)))
              (of_nat (length (message_of (sequence st)) + 1)) = Inr rb))"
proof (intro conjI impI)
  show "length (c_str (message_of s)) \<le> 30"
    using length_message_of [of s] by simp
  show "unat (of_nat (length (message_of s) + 1) :: u8) = length (c_str (message_of s))"
    using length_message_of [of s] by (simp only: unat_of_nat_u8 length_c_str) simp
next
  assume ok: "ring_ok (buffer st)"
  show "\<exists>st'. producer_iter st = Inr st' \<and>
         (gating st 0 \<longrightarrow>
            unat (size_b (rb_buffer (buffer st') ! (unat (sequence (overflow_rebase st)) mod 256)))
              \<le> 30)"
  proof (cases "gating st 0")
    case False
    then show ?thesis by (simp add: producer_iter_spin)
  next
    case True
    let ?m = "message_of (sequence (overflow_rebase st))"
    have "unat (of_nat (length (c_str ?m)) :: u8) \<le> 30"
      using length_message_of [of "sequence (overflow_rebase st)"]
      by (simp only: unat_of_nat_u8 length_c_str) simp
    then show ?thesis
      using ring_ok_length [OF ok] by (simp add: producer_iter_eq [OF ok True])
  qed
next
  assume "reach tr pp cp st"
  then show ok: "ring_ok (buffer st)" by (rule reach_ring_ok)
  with producer_iter_total [of st] show "producer_iter st \<noteq> Inl MemcpyOutOfBounds"
    by auto
  have "(length (message_of (sequence st)) + 1) mod 256 \<le> 63"
    using length_message_of [of "sequence st"] by simp
  with publish_eq [OF ok, of "message_of (sequence st)"]
  show "\<exists>rb. Write (buffer st) (ucast (sequence st)) (c_str (message_of (sequence st)))
              (of_nat (length (message_of (sequence st)) + 1)) = Inr rb"
    by (auto simp add: publish_def split: sum.splits)
qed

theorem producer_payload_fits_witness:
  "ring_ok (buffer blank_state) \<and> gating blank_state 0 \<and>
   (\<exists>st'. producer_iter blank_state = Inr st' \<and>
      unat (size_b (rb_buffer (buffer st') ! (unat (sequence (overflow_rebase blank_state)) mod 256))) \<le> 30) \<and>
   reach [Published] P_while [C_while, C_while, C_while, C_while]
     (demo_state [0, 0, 0, 0] True True) \<and>
   producer_iter (demo_state [0, 0, 0, 0] True True) \<noteq> Inl MemcpyOutOfBounds"
  using producer_payload_fits [where s = 0 and st = blank_state]
    producer_payload_fits [where s = 0 and st = "demo_state [0, 0, 0, 0] True True"
      and tr = "[Published]" and pp = P_while and cp = "[C_while, C_while, C_while, C_while]"]
    ring_ok_blank_state gating_blank reach_demo_0
  by blast

section \<open>The slot index (claim C10)\<close>

text \<open>
  C10. The producer passes \<^verbatim>\<open>(uint32_t)sequence.sequence\<close> to \<open>Write\<close> and a consumer passes
  \<^verbatim>\<open>(uint32_t)consumer_sequences[consumer_id].sequence\<close> to \<open>Read\<close>; both mask the
  index with \<open>l\<close>. For the ring that the program builds (\<open>RingBuffer_new p_glob\<close>,
  whose mask is \<open>size_glob - 1 = 255\<close>) and every 64-bit value \<open>s\<close>, the masked
  32-bit truncation of \<open>s\<close> is \<open>s mod 256\<close>, which is also what masking the full
  64-bit value gives: the truncation never changes the slot.
\<close>

theorem truncation_keeps_slot:
  "unat ((ucast (s :: u64) :: u32) AND rb_l (RingBuffer_new p_glob fresh)) = unat s mod unat size_glob \<and>
   unat ((ucast s :: u32) AND rb_l (RingBuffer_new p_glob fresh)) =
     unat (s AND ucast (rb_l (RingBuffer_new p_glob fresh))) \<and>
   unat size_glob = 256"
proof -
  have l: "rb_l (RingBuffer_new p_glob fresh) = 255"
    by (simp add: RingBuffer_new_def Let_def p_glob_def)
  have "unat (s AND mask 8) = take_bit 8 (unat s)"
    by (simp add: unsigned_take_bit_eq flip: take_bit_eq_mask)
  then have "unat (s AND 255) = unat s mod 256"
    by (simp add: mask_255 take_bit_eq_mod)
  then show ?thesis
    by (simp add: l unat_ucast_and_255 unat_size_glob)
qed

end

